theory Spec2Isabelle
  imports Main "HOL-Library.Word"
begin

section \<open>The program\<close>

subsection \<open>Machine integers shared by the models\<close>

text \<open>
  The sources count with \<open>uint8_t\<close> fields and loop variables; they are modelled as
  \<open>8 word\<close>, so that \<open>++\<close> wraps as it does on the target. Compile-time constants
  (template parameters and macros) are natural numbers.
\<close>

type_synonym uint8_t = "8 word"

type_synonym uint32_t = "32 word"

subsection \<open>Observer pattern: \<open>nPattern::cObserved\<close>\<close>

text \<open>
  A listener pointer is \<open>'l option\<close>, \<open>None\<close> being \<open>NULL\<close>. The capacity
  \<open>COBSERVED_LISTENER_MAX\<close> is a macro (6 unless the user defines it), taken as the
  parameter \<open>cap\<close>.
\<close>

record 'l cObserved =
  ulEvent :: uint32_t
  ucListenerCount :: uint8_t
  pxListener :: "'l option list"

definition COBSERVED_LISTENER_MAX :: nat where
  "COBSERVED_LISTENER_MAX = 6"

text \<open>The constructor: count 0, event tag stored, every slot \<open>NULL\<close> (the \<open>memset\<close>).\<close>

definition cObserved_new :: "nat \<Rightarrow> uint32_t \<Rightarrow> 'l cObserved" where
  "cObserved_new cap ev = \<lparr>ulEvent = ev, ucListenerCount = 0, pxListener = replicate cap None\<rparr>"

text \<open>
  \<^verbatim>\<open>if (_ucListenerCount<COBSERVED_LISTENER_MAX) { _pxListener[_ucListenerCount++]=pxL; }\<close>
\<close>

definition appendObserver :: "nat \<Rightarrow> 'l cObserved \<Rightarrow> 'l option \<Rightarrow> 'l cObserved" where
  "appendObserver cap s pxL =
     (if unat (ucListenerCount s) < cap
      then s\<lparr>pxListener := (pxListener s)[unat (ucListenerCount s) := pxL],
              ucListenerCount := ucListenerCount s + 1\<rparr>
      else s)"

definition getEvent :: "'l cObserved \<Rightarrow> uint32_t" where
  "getEvent s = ulEvent s"

text \<open>
  \<open>notify\<close>: a listener's \<open>update(this)\<close> is a virtual call that may change the rest
  of the program, so it is a function of the listener, the sender and a world \<open>'w\<close>,
  returning the accepted flag and the new world. The loop also records each call it
  makes together with its result, in call order.
\<close>

function notify_loop ::
  "('l \<Rightarrow> 'l cObserved \<Rightarrow> 'w \<Rightarrow> bool \<times> 'w) \<Rightarrow> 'l cObserved \<Rightarrow> uint8_t \<Rightarrow>
     ('l \<times> bool) list \<Rightarrow> 'w \<Rightarrow> ('l \<times> bool) list \<times> 'w" where
  "notify_loop update s ucI calls w =
     (if ucI < ucListenerCount s then
        (case pxListener s ! unat ucI of
           None \<Rightarrow> notify_loop update s (ucI + 1) calls w
         | Some l \<Rightarrow>
             (case update l s w of
                (True, w') \<Rightarrow> (calls @ [(l, True)], w')
              | (False, w') \<Rightarrow> notify_loop update s (ucI + 1) (calls @ [(l, False)]) w'))
      else (calls, w))"
  by pat_completeness auto
termination
proof (relation "measure (\<lambda>(update, s, ucI, calls, w). unat (ucListenerCount s) - unat ucI)")
  fix s :: "'l cObserved" and ucI :: uint8_t
  assume "ucI < ucListenerCount s"
  then have below: "unat ucI < unat (ucListenerCount s)" by (simp add: word_less_nat_alt)
  moreover have "unat (ucListenerCount s) < 2 ^ LENGTH(8)" by (rule unsigned_less)
  ultimately have "unat ucI + unat (1 :: uint8_t) < 2 ^ LENGTH(8)" by simp
  then have "unat (ucI + 1) = unat ucI + unat (1 :: uint8_t)"
    by (simp only: unat_add_lem [THEN iffD1])
  then have step: "unat (ucListenerCount s) - unat (ucI + 1) < unat (ucListenerCount s) - unat ucI"
    using below by simp
  fix update :: "'l \<Rightarrow> 'l cObserved \<Rightarrow> 'w \<Rightarrow> bool \<times> 'w" and calls :: "('l \<times> bool) list" and w w' :: 'w
  show "((update, s, ucI + 1, calls, w), (update, s, ucI, calls, w))
        \<in> measure (\<lambda>(update, s, ucI, calls, w). unat (ucListenerCount s) - unat ucI)"
    using step by simp
  fix l :: 'l
  show "((update, s, ucI + 1, calls @ [(l, False)], w'), (update, s, ucI, calls, w))
        \<in> measure (\<lambda>(update, s, ucI, calls, w). unat (ucListenerCount s) - unat ucI)"
    using step by simp
qed simp

definition notify ::
  "('l \<Rightarrow> 'l cObserved \<Rightarrow> 'w \<Rightarrow> bool \<times> 'w) \<Rightarrow> 'l cObserved \<Rightarrow> 'w \<Rightarrow> ('l \<times> bool) list \<times> 'w" where
  "notify update s w = notify_loop update s 0 [] w"

declare notify_loop.simps [simp del]

text \<open>
  The registered listeners \<open>L1..Lk\<close> of the specification: the non-\<open>NULL\<close>
  pointers among the first \<open>_ucListenerCount\<close> slots, in slot order.
\<close>

definition listeners :: "'l cObserved \<Rightarrow> 'l list" where
  "listeners s = List.map_filter (\<lambda>p. p) (take (unat (ucListenerCount s)) (pxListener s))"

text \<open>
  The specification of \<open>notify\<close> in its own words, on a plain list of listeners: offer
  the notification to each in turn and stop at the first that accepts.
\<close>

fun offer ::
  "('l \<Rightarrow> 'l cObserved \<Rightarrow> 'w \<Rightarrow> bool \<times> 'w) \<Rightarrow> 'l cObserved \<Rightarrow> 'l list \<Rightarrow> 'w \<Rightarrow> ('l \<times> bool) list \<times> 'w" where
  "offer update s [] w = ([], w)"
| "offer update s (l # ls) w =
     (case update l s w of
        (True, w') \<Rightarrow> ([(l, True)], w')
      | (False, w') \<Rightarrow> (case offer update s ls w' of (tr, w'') \<Rightarrow> ((l, False) # tr, w'')))"

subsection \<open>Interrupt dispatch table: \<open>nSupport::cIrqMonitor\<close>\<close>

text \<open>
  The dispatch table is the function-local \<open>static cIrqHandler* _handler[CIRQMONITORED_MAX]\<close>
  of \<open>getHandlerPtr\<close>, zero-initialised at program start; a slot is \<open>'h option\<close>. The
  calls made to the board's \<open>attachInterrupt\<close> are kept as a log of (pin, trampoline
  index, mode).
\<close>

datatype ePINMODE = ePINMODE_LOW | ePINMODE_CHANGE | ePINMODE_RISING | ePINMODE_FALLING | ePINMODE_HIGH

definition CIRQMONITORED_MAX :: nat where
  "CIRQMONITORED_MAX = 24"

record 'h cIrqMonitor =
  handler :: "'h option list"
  attachInterrupt_calls :: "(uint32_t \<times> nat \<times> ePINMODE) list"

definition cIrqMonitor_init :: "'h cIrqMonitor" where
  "cIrqMonitor_init = \<lparr>handler = replicate CIRQMONITORED_MAX None, attachInterrupt_calls = []\<rparr>"

text \<open>
  \<open>getISRPtr\<close>: the \<open>switch\<close> has the cases 1 to 23 and falls back to \<open>pinISR0\<close>.
\<close>

definition getISRPtr :: "uint32_t \<Rightarrow> nat" where
  "getISRPtr pin = (if 1 \<le> unat pin \<and> unat pin \<le> 23 then unat pin else 0)"

text \<open>
  \<^verbatim>\<open>if ((pin<CIRQMONITORED_MAX) && (!*h)) { attached = true; *h = &handler; attachInterrupt(...); }\<close>
  The slot is read only when the pin is in range (\<open>&&\<close> short-circuits).
\<close>

definition attach :: "uint32_t \<Rightarrow> 'h \<Rightarrow> ePINMODE \<Rightarrow> 'h cIrqMonitor \<Rightarrow> bool \<times> 'h cIrqMonitor" where
  "attach pin h mode m =
     (if unat pin < CIRQMONITORED_MAX \<and> handler m ! unat pin = None
      then (True, m\<lparr>handler := (handler m)[unat pin := Some h],
                     attachInterrupt_calls := attachInterrupt_calls m @ [(pin, getISRPtr pin, mode)]\<rparr>)
      else (False, m))"

definition deattach :: "uint32_t \<Rightarrow> 'h cIrqMonitor \<Rightarrow> bool \<times> 'h cIrqMonitor" where
  "deattach pin m =
     (if unat pin < CIRQMONITORED_MAX \<and> handler m ! unat pin \<noteq> None
      then (True, m\<lparr>handler := (handler m)[unat pin := None]\<rparr>)
      else (False, m))"

definition isAttached :: "uint32_t \<Rightarrow> 'h cIrqMonitor \<Rightarrow> bool" where
  "isAttached pin m = (unat pin < CIRQMONITORED_MAX \<and> handler m ! unat pin \<noteq> None)"

subsection \<open>Text lines: \<open>nText::cTextLine\<close>\<close>

text \<open>
  A \<open>char\<close> of the source is a \<open>char\<close> here; the three the code compares with are
  named.
\<close>

abbreviation NUL :: char where "NUL \<equiv> CHR 0x00"

abbreviation CR :: char where "CR \<equiv> CHR 0x0D"

abbreviation LF :: char where "LF \<equiv> CHR 0x0A"

text \<open>
  An array access outside the array is undefined behaviour in the source. The model
  checks every index: reads and writes of the object's buffer \<open>char _scLine[N+1]\<close> (or
  of the caller's data buffer) through \<open>buf_read\<close> and \<open>buf_write\<close>, reads of the
  caller's source string through \<open>src_read\<close>; an index outside the array ends the
  operation with the fault and the index. Indices are \<open>int\<close>, as after the integer
  promotions of the source.
\<close>

datatype error = BufferOutOfBounds int | SourceOutOfBounds int

definition buf_read :: "char list \<Rightarrow> int \<Rightarrow> error + char" where
  "buf_read buf i = (if 0 \<le> i \<and> i < int (length buf) then Inr (buf ! nat i) else Inl (BufferOutOfBounds i))"

definition buf_write :: "char list \<Rightarrow> int \<Rightarrow> char \<Rightarrow> error + char list" where
  "buf_write buf i c = (if 0 \<le> i \<and> i < int (length buf) then Inr (buf[nat i := c]) else Inl (BufferOutOfBounds i))"

definition src_read :: "char list \<Rightarrow> int \<Rightarrow> error + char" where
  "src_read src i = (if 0 \<le> i \<and> i < int (length src) then Inr (src ! nat i) else Inl (SourceOutOfBounds i))"

text \<open>
  The C library's \<open>strlen\<close> on the memory of the source: the number of characters
  before the first terminator; without a terminator it runs off the end.
\<close>

definition strlen :: "char list \<Rightarrow> error + nat" where
  "strlen src = (if NUL \<in> set src then Inr (length (takeWhile (\<lambda>c. c \<noteq> NUL) src))
                 else Inl (SourceOutOfBounds (int (length src))))"

text \<open>
  \<open>cTextLine<N>\<close> has the fields \<open>char _scLine[N+1]\<close> and \<open>uint8_t _ucLength\<close>. The
  template parameter \<open>N\<close> (a \<open>uint16_t\<close>) is a parameter of every operation.
\<close>

record cTextLine =
  scLine :: "char list"
  ucLength :: uint8_t

text \<open>
  The default constructor \<^verbatim>\<open>cTextLine() : _ucLength(N) { }\<close> leaves \<open>_scLine\<close> as the
  memory \<open>mem\<close> it was given and stores \<open>N\<close>, narrowed to the 8-bit field.
\<close>

definition cTextLine_default :: "nat \<Rightarrow> char list \<Rightarrow> cTextLine" where
  "cTextLine_default N mem = \<lparr>scLine = mem, ucLength = of_nat N\<rparr>"

text \<open>
  The copy loop of \<open>setLine\<close>:
  \<^verbatim>\<open>for(uint8_t ucI=0;ucI<_ucLength;ucI++) { _scLine[ucI]=pcsData[ucI]; }\<close>
\<close>

function setLine_copy :: "char list \<Rightarrow> char list \<Rightarrow> uint8_t \<Rightarrow> uint8_t \<Rightarrow> error + char list" where
  "setLine_copy buf pcsData ucI len =
     (if ucI < len then
        (case src_read pcsData (uint ucI) of
           Inl e \<Rightarrow> Inl e
         | Inr c \<Rightarrow>
             (case buf_write buf (uint ucI) c of
                Inl e \<Rightarrow> Inl e
              | Inr buf' \<Rightarrow> setLine_copy buf' pcsData (ucI + 1) len))
      else Inr buf)"
  by pat_completeness auto
termination
proof (relation "measure (\<lambda>(buf, pcsData, ucI, len). unat len - unat ucI)")
  fix ucI len :: uint8_t and buf buf' pcsData :: "char list"
  assume "ucI < len"
  then have below: "unat ucI < unat len" by (simp add: word_less_nat_alt)
  moreover have "unat len < 2 ^ LENGTH(8)" by (rule unsigned_less)
  ultimately have "unat ucI + unat (1 :: uint8_t) < 2 ^ LENGTH(8)" by simp
  then have "unat (ucI + 1) = unat ucI + unat (1 :: uint8_t)"
    by (simp only: unat_add_lem [THEN iffD1])
  then show "((buf', pcsData, ucI + 1, len), (buf, pcsData, ucI, len))
             \<in> measure (\<lambda>(buf, pcsData, ucI, len). unat len - unat ucI)"
    using below by simp
qed simp

declare setLine_copy.simps [simp del]

text \<open>
  \<open>setLine\<close>. In \<open>ucLength>N-1\<close> both operands are promoted to \<open>int\<close>, so the
  comparison is on integers and \<open>N-1\<close> is \<open>-1\<close> for \<open>N = 0\<close> (on a target with a
  16-bit \<open>int\<close> the subtraction is unsigned there; for \<open>N \<ge> 1\<close> the targets agree).
  The stored length is narrowed to \<open>uint8_t\<close>. The terminator check reads
  \<open>_scLine[_ucLength-1]\<close>, the index being computed in \<open>int\<close>. The parameter
  \<open>ucLength\<close> of the source is \<open>ucLen\<close> here, as are the locals of that name in
  \<open>cTexter\<close> (\<open>ucLength\<close> is the selector of the field \<open>_ucLength\<close>).
\<close>

definition setLine :: "nat \<Rightarrow> cTextLine \<Rightarrow> char list \<Rightarrow> uint8_t \<Rightarrow> error + cTextLine" where
  "setLine N l pcsData ucLen =
     (let len = (if uint ucLen > int N - 1 then word_of_int (int N - 1) else ucLen) in
      case setLine_copy (scLine l) pcsData 0 len of
        Inl e \<Rightarrow> Inl e
      | Inr buf \<Rightarrow>
          (case buf_read buf (uint len - 1) of
             Inl e \<Rightarrow> Inl e
           | Inr c \<Rightarrow>
               if c \<noteq> NUL
               then (case buf_write buf (uint len) NUL of
                       Inl e \<Rightarrow> Inl e
                     | Inr buf' \<Rightarrow> Inr \<lparr>scLine = buf', ucLength = len\<rparr>)
               else Inr \<lparr>scLine = buf, ucLength = len\<rparr>))"

text \<open>
  The two constructors from a source string; \<open>l\<close> is the object before its fields are
  set. In the first, \<open>strlen\<close>'s result is narrowed to the \<open>uint8_t\<close> parameter of
  \<open>setLine\<close>.
\<close>

definition cTextLine_cstr :: "nat \<Rightarrow> cTextLine \<Rightarrow> char list \<Rightarrow> error + cTextLine" where
  "cTextLine_cstr N l pcsData =
     (case strlen pcsData of
        Inl e \<Rightarrow> Inl e
      | Inr n \<Rightarrow> setLine N l pcsData (of_nat n))"

definition cTextLine_len :: "nat \<Rightarrow> cTextLine \<Rightarrow> char list \<Rightarrow> uint8_t \<Rightarrow> error + cTextLine" where
  "cTextLine_len N l pcsData ucLen = setLine N l pcsData ucLen"

definition getLine :: "cTextLine \<Rightarrow> char list" where
  "getLine l = scLine l"

definition getLineLength :: "cTextLine \<Rightarrow> uint8_t" where
  "getLineLength l = ucLength l"

text \<open>
  The object has no error path: on the target \<open>setLine\<close> returns also when its
  terminator check has read \<open>_scLine[-1]\<close>, with whatever byte lies before the array.
  \<open>setLine_run\<close> is \<open>setLine\<close> as the target runs it: the read at index \<open>-1\<close>
  yields the parameter \<open>outside\<close>, that byte; every other access is checked as in
  \<open>setLine\<close>. The constructors from a source string follow.
\<close>

definition buf_read_run :: "char \<Rightarrow> char list \<Rightarrow> int \<Rightarrow> error + char" where
  "buf_read_run outside buf i = (if i = - 1 then Inr outside else buf_read buf i)"

definition setLine_run :: "nat \<Rightarrow> char \<Rightarrow> cTextLine \<Rightarrow> char list \<Rightarrow> uint8_t \<Rightarrow> error + cTextLine" where
  "setLine_run N outside l pcsData ucLen =
     (let len = (if uint ucLen > int N - 1 then word_of_int (int N - 1) else ucLen) in
      case setLine_copy (scLine l) pcsData 0 len of
        Inl e \<Rightarrow> Inl e
      | Inr buf \<Rightarrow>
          (case buf_read_run outside buf (uint len - 1) of
             Inl e \<Rightarrow> Inl e
           | Inr c \<Rightarrow>
               if c \<noteq> NUL
               then (case buf_write buf (uint len) NUL of
                       Inl e \<Rightarrow> Inl e
                     | Inr buf' \<Rightarrow> Inr \<lparr>scLine = buf', ucLength = len\<rparr>)
               else Inr \<lparr>scLine = buf, ucLength = len\<rparr>))"

definition cTextLine_cstr_run :: "nat \<Rightarrow> char \<Rightarrow> cTextLine \<Rightarrow> char list \<Rightarrow> error + cTextLine" where
  "cTextLine_cstr_run N outside l pcsData =
     (case strlen pcsData of
        Inl e \<Rightarrow> Inl e
      | Inr n \<Rightarrow> setLine_run N outside l pcsData (of_nat n))"

definition cTextLine_len_run :: "nat \<Rightarrow> char \<Rightarrow> cTextLine \<Rightarrow> char list \<Rightarrow> uint8_t \<Rightarrow> error + cTextLine" where
  "cTextLine_len_run N outside l pcsData ucLen = setLine_run N outside l pcsData ucLen"

subsection \<open>Line reader and writer: \<open>nText::cTexter\<close>\<close>

text \<open>
  \<open>cTexter<N>\<close> adds the two blocking algorithms, driven by the virtual
  \<open>characterRead\<close>, \<open>characterReadDelay\<close> and \<open>characterWrite\<close> of a peripheral.

  \<open>blockingReadLine\<close> polls forever. The character source is the list of the results of
  its successive \<open>characterRead\<close> calls: \<open>Some c\<close> for a character, \<open>None\<close> for
  "no data" (after which the loop calls \<open>characterReadDelay\<close> and polls again). When
  the list is used up the loop has not returned: the outcome is \<open>Polling\<close>, with the
  data buffer, \<open>ucLength\<close> and \<open>scLast\<close> it is holding. \<open>Returned\<close> carries the data
  buffer, the value stored into \<open>pxThis->_ucLength\<close>, and the unread rest of the source.
\<close>

datatype read_outcome =
    Returned "char list" uint8_t "char option list"
  | Polling "char list" uint8_t char
  | Fault error

fun blockingReadLine_loop ::
  "nat \<Rightarrow> char option list \<Rightarrow> char list \<Rightarrow> char \<Rightarrow> uint8_t \<Rightarrow> read_outcome" where
  "blockingReadLine_loop N [] pscData scLast ucLen = Polling pscData ucLen scLast"
| "blockingReadLine_loop N (None # source) pscData scLast ucLen =
     blockingReadLine_loop N source pscData scLast ucLen"
| "blockingReadLine_loop N (Some scCurrent # source) pscData scLast ucLen =
     (let ucLen1 = (if int N \<le> uint ucLen then 0 else ucLen) in
      case buf_write pscData (uint ucLen1) scCurrent of
        Inl e \<Rightarrow> Fault e
      | Inr pscData1 \<Rightarrow>
          (let ucLen2 = ucLen1 + 1 in
           if scCurrent = LF \<and> scLast = CR \<and> 1 < ucLen2
           then (case buf_write pscData1 (uint ucLen2) NUL of
                   Inl e \<Rightarrow> Fault e
                 | Inr pscData2 \<Rightarrow> Returned pscData2 ucLen2 source)
           else blockingReadLine_loop N source pscData1 scCurrent ucLen2))"

definition blockingReadLine :: "nat \<Rightarrow> char list \<Rightarrow> char option list \<Rightarrow> read_outcome" where
  "blockingReadLine N pscData source = blockingReadLine_loop N source pscData NUL 0"

text \<open>
  \<open>blockingWriteLine\<close> counts in \<^verbatim>\<open>char ucLength\<close>. What \<open>ucLength++\<close> and
  \<open>ucLength>=N\<close> do once the counter passes 127 depends on the target, and the library
  names two kinds (README): 8-bit AVR, where \<open>char\<close> is signed and \<open>int\<close> has 16
  bits, and 32-bit ARM (AT91SAM, STM32), where \<open>char\<close> is unsigned. The counter is an
  \<open>int\<close> holding the value of the \<open>char\<close>, with the wrap-around written out:
  \<^item> \<open>char_inc\<close>: on AVR 127 is followed by \<open>-128\<close>, on ARM 255 by 0;
  \<^item> \<open>char_ge_N\<close>: on AVR the promoted counter is converted to the 16-bit unsigned type
    of \<open>N\<close>, on ARM both sides are \<open>int\<close>.
\<close>

datatype target = AVR8 | ARM32

definition char_inc :: "target \<Rightarrow> int \<Rightarrow> int" where
  "char_inc t v = (case t of AVR8 \<Rightarrow> (if v = 127 then - 128 else v + 1)
                           | ARM32 \<Rightarrow> (if v = 255 then 0 else v + 1))"

definition char_ge_N :: "target \<Rightarrow> int \<Rightarrow> nat \<Rightarrow> bool" where
  "char_ge_N t v N = (case t of AVR8 \<Rightarrow> int N \<le> v mod 65536 | ARM32 \<Rightarrow> int N \<le> v)"

text \<open>
  The loop reads \<open>pscData[ucLength++]\<close>, stops on the terminator, writes the character,
  and stops when \<open>ucLength>=N\<close>. \<open>written\<close> is the sequence of \<open>characterWrite\<close>
  calls so far. The loop need not end (see \<open>blockingWriteLine_limit_examples\<close>), so its
  result is an option, \<open>None\<close> for a run that never returns.
\<close>

partial_function (option) blockingWriteLine_loop ::
  "target \<Rightarrow> nat \<Rightarrow> char list \<Rightarrow> int \<Rightarrow> char list \<Rightarrow> (error + char list) option" where
  "blockingWriteLine_loop t N pscData ucLen written =
     (case src_read pscData ucLen of
        Inl e \<Rightarrow> Some (Inl e)
      | Inr scCurrent \<Rightarrow>
          if scCurrent = NUL then Some (Inr written)
          else if char_ge_N t (char_inc t ucLen) N then Some (Inr (written @ [scCurrent]))
          else blockingWriteLine_loop t N pscData (char_inc t ucLen) (written @ [scCurrent]))"

declare blockingWriteLine_loop.simps [code]

definition blockingWriteLine :: "target \<Rightarrow> nat \<Rightarrow> char list \<Rightarrow> (error + char list) option" where
  "blockingWriteLine t N pscData = blockingWriteLine_loop t N pscData 0 []"

text \<open>The largest \<open>N\<close> the \<open>char\<close> counter can count to on each target.\<close>

definition counter_limit :: "target \<Rightarrow> nat" where
  "counter_limit t = (case t of AVR8 \<Rightarrow> 128 | ARM32 \<Rightarrow> 255)"

subsection \<open>Queue wrapper: \<open>nFRTOS::cQueue\<close>\<close>

text \<open>
  \<open>cQueue<QType>\<close> passes its handle and the address of a \<open>QType\<close> variable to the
  scheduler's queue primitives. The model has the content of the queue behind a valid
  handle, head first, and a memory of cells that hold one element each, addressed by
  natural numbers.
\<close>

type_synonym addr = nat

record 'a machine =
  items :: "'a list"
  memory :: "addr \<Rightarrow> 'a"

text \<open>
  Modelled from the spec: the scheduler's queue primitives (FreeRTOS; no source in the
  repository), here \<open>xQueueReceive\<close>, after section 6,
  "queue-receive(handle, outBuffer, timeoutTicks) \<rightarrow> bool", "queue-peek (same signature
  as receive, non-destructive)", "queue-send(handle, elementBytes, timeoutTicks) \<rightarrow>
  bool": an element is copied to, or from, the memory at the address given; on an empty
  (for send: full) queue the wait ends with false, no other task being there to change
  the queue.
\<close>

definition xQueueReceive :: "'a machine \<Rightarrow> addr \<Rightarrow> bool \<times> 'a machine" where
  "xQueueReceive m pvBuffer =
     (case items m of
        [] \<Rightarrow> (False, m)
      | x # xs \<Rightarrow> (True, m\<lparr>items := xs, memory := (memory m)(pvBuffer := x)\<rparr>))"

text \<open>
  Modelled from the spec: \<open>xQueuePeek\<close>, as \<open>xQueueReceive\<close> but the element stays in
  the queue.
\<close>

definition xQueuePeek :: "'a machine \<Rightarrow> addr \<Rightarrow> bool \<times> 'a machine" where
  "xQueuePeek m pvBuffer =
     (case items m of
        [] \<Rightarrow> (False, m)
      | x # xs \<Rightarrow> (True, m\<lparr>memory := (memory m)(pvBuffer := x)\<rparr>))"

text \<open>
  Modelled from the spec: \<open>xQueueSend\<close>, which appends a copy of the element at the
  address given unless the queue already holds \<open>uxQueueLength\<close> elements.
\<close>

definition xQueueSend :: "nat \<Rightarrow> 'a machine \<Rightarrow> addr \<Rightarrow> bool \<times> 'a machine" where
  "xQueueSend uxQueueLength m pvItemToQueue =
     (if length (items m) < uxQueueLength
      then (True, m\<lparr>items := items m @ [memory m pvItemToQueue]\<rparr>)
      else (False, m))"

text \<open>
  \<open>receive(QType &xData, ...)\<close> passes \<open>&xData\<close>: the parameter \<open>xData\<close> of the model
  is the address of the caller's variable. \<open>peek\<close> declares a local \<open>QType xData\<close>,
  here the cell at address \<open>xData\<close> with whatever it holds, and passes
  \<^verbatim>\<open>static_cast<void *>(xData)\<close>, the value of the local and not its address; that
  compiles only for a \<open>QType\<close> that is an object pointer, so the elements of \<open>peek\<close>
  are addresses. It returns the local.
\<close>

definition receive :: "'a machine \<Rightarrow> addr \<Rightarrow> bool \<times> 'a machine" where
  "receive m xData =
     (let bReceived = False in
      case xQueueReceive m xData of
        (True, m') \<Rightarrow> (True, m')
      | (False, m') \<Rightarrow> (bReceived, m'))"

definition peek :: "addr machine \<Rightarrow> addr \<Rightarrow> addr \<times> bool \<times> addr machine" where
  "peek m xData =
     (let bReceived = False in
      case xQueuePeek m (memory m xData) of
        (True, m') \<Rightarrow> (memory m' xData, True, m')
      | (False, m') \<Rightarrow> (memory m' xData, bReceived, m'))"

definition send :: "nat \<Rightarrow> 'a machine \<Rightarrow> addr \<Rightarrow> bool \<times> 'a machine" where
  "send xSize m xData =
     (let bSent = False in
      case xQueueSend xSize m xData of
        (True, m') \<Rightarrow> (True, m')
      | (False, m') \<Rightarrow> (bSent, m'))"

section \<open>Properties\<close>

subsection \<open>Machine integers shared by the models\<close>

lemma unat_inc_u8_nat: "unat (i :: uint8_t) < 255 \<Longrightarrow> unat (i + 1) = Suc (unat i)"
proof -
  assume "unat i < 255"
  then have "unat i + unat (1 :: uint8_t) < 2 ^ LENGTH(8)" by simp
  then have "unat (i + 1) = unat i + unat (1 :: uint8_t)" by (simp only: unat_add_lem [THEN iffD1])
  then show ?thesis by simp
qed

lemma unat_inc_u8: "(i :: uint8_t) < n \<Longrightarrow> unat (i + 1) = Suc (unat i)"
proof -
  assume "i < n"
  then have "unat i < unat n" by (simp add: word_less_nat_alt)
  moreover have "unat n < 256" using unsigned_less [of n] by simp
  ultimately show ?thesis by (simp add: unat_inc_u8_nat)
qed

subsection \<open>Observer pattern: \<open>nPattern::cObserved\<close>\<close>

lemma appendObserver_free:
  "unat (ucListenerCount s) < cap \<Longrightarrow>
   appendObserver cap s p = s\<lparr>pxListener := (pxListener s)[unat (ucListenerCount s) := p],
                                ucListenerCount := ucListenerCount s + 1\<rparr>"
  by (simp add: appendObserver_def)

lemma appendObserver_full:
  "\<not> unat (ucListenerCount s) < cap \<Longrightarrow> appendObserver cap s p = s"
  by (simp add: appendObserver_def)

lemma appendObserver_fold:
  assumes "cap < 256"
  shows "unat (ucListenerCount (foldl (appendObserver cap) (cObserved_new cap ev) ps)) = min (length ps) cap
       \<and> pxListener (foldl (appendObserver cap) (cObserved_new cap ev) ps) = take cap ps @ replicate (cap - length ps) None
       \<and> ulEvent (foldl (appendObserver cap) (cObserved_new cap ev) ps) = ev"
proof (induction ps rule: rev_induct)
  case Nil
  show ?case by (simp add: cObserved_new_def)
next
  case (snoc p ps)
  define s where "s = foldl (appendObserver cap) (cObserved_new cap ev) ps"
  from snoc have cnt: "unat (ucListenerCount s) = min (length ps) cap"
    and lst: "pxListener s = take cap ps @ replicate (cap - length ps) None"
    and ev: "ulEvent s = ev" by (simp_all add: s_def)
  have step: "foldl (appendObserver cap) (cObserved_new cap ev) (ps @ [p]) = appendObserver cap s p"
    by (simp add: s_def)
  show ?case
  proof (cases "length ps < cap")
    case True
    then have lt: "unat (ucListenerCount s) < 255"
      using cnt assms by simp
    have inc: "unat (ucListenerCount s + 1) = Suc (length ps)"
      using unat_inc_u8_nat [OF lt] cnt True by simp
    have upd: "(take cap ps @ replicate (cap - length ps) None)[length ps := p]
               = take cap (ps @ [p]) @ replicate (cap - Suc (length ps)) None"
    proof -
      have "cap - length ps = Suc (cap - Suc (length ps))" using True by simp
      then have "replicate (cap - length ps) (None :: 'a option) = None # replicate (cap - Suc (length ps)) None"
        by (simp only: replicate_Suc)
      then show ?thesis using True by (simp add: list_update_append)
    qed
    have free: "unat (ucListenerCount s) < cap" using cnt True by simp
    show ?thesis unfolding step appendObserver_free [OF free]
      using True cnt lst ev inc upd by simp
  next
    case False
    then have "\<not> unat (ucListenerCount s) < cap" using cnt by simp
    then show ?thesis unfolding step using False cnt lst ev by (simp add: appendObserver_full)
  qed
qed

lemma constructed_count_fits:
  assumes "cap < 256"
  shows "unat (ucListenerCount (foldl (appendObserver cap) (cObserved_new cap ev) ps))
         \<le> length (pxListener (foldl (appendObserver cap) (cObserved_new cap ev) ps))"
  using appendObserver_fold [OF assms, of ev ps] by simp

text \<open>
  C8. Starting from a freshly constructed \<open>cObserved\<close> and appending any sequence
  \<open>ps\<close> of listener pointers, the listener count is \<open>min (length ps) cap\<close>, hence
  never above the capacity; the registered listeners are the first \<open>cap\<close> pointers
  of \<open>ps\<close>, each at its own position; and once \<open>cap\<close> have been appended, one more
  \<open>appendObserver\<close> returns the object unchanged. The capacity has to fit the
  \<open>uint8_t\<close> counter (the default is 6).
\<close>

theorem appendObserver_capped:
  assumes "cap < 256"
  shows "unat (ucListenerCount (foldl (appendObserver cap) (cObserved_new cap ev) ps)) = min (length ps) cap
       \<and> unat (ucListenerCount (foldl (appendObserver cap) (cObserved_new cap ev) ps)) \<le> cap
       \<and> take (min (length ps) cap) (pxListener (foldl (appendObserver cap) (cObserved_new cap ev) ps)) = take cap ps
       \<and> (cap \<le> length ps \<longrightarrow>
            appendObserver cap (foldl (appendObserver cap) (cObserved_new cap ev) ps) p
              = foldl (appendObserver cap) (cObserved_new cap ev) ps)"
proof -
  define s where "s = foldl (appendObserver cap) (cObserved_new cap ev) ps"
  have cnt: "unat (ucListenerCount s) = min (length ps) cap"
    and lst: "pxListener s = take cap ps @ replicate (cap - length ps) None"
    using appendObserver_fold [OF assms, of ev ps] by (simp_all add: s_def)
  have "cap \<le> length ps \<longrightarrow> appendObserver cap s p = s"
    using cnt by (simp add: appendObserver_full)
  moreover have "take (min (length ps) cap) (pxListener s) = take cap ps"
    unfolding lst by (simp add: min_def)
  ultimately show ?thesis using cnt unfolding s_def by simp
qed

theorem appendObserver_capped_witness:
  "COBSERVED_LISTENER_MAX < 256
   \<and> unat (ucListenerCount (foldl (appendObserver COBSERVED_LISTENER_MAX) (cObserved_new COBSERVED_LISTENER_MAX 7)
        [Some (1::nat), Some 2, None, Some 4, Some 5, Some 6, Some 7])) = 6
   \<and> pxListener (foldl (appendObserver COBSERVED_LISTENER_MAX) (cObserved_new COBSERVED_LISTENER_MAX 7)
        [Some (1::nat), Some 2, None, Some 4, Some 5, Some 6, Some 7])
      = [Some 1, Some 2, None, Some 4, Some 5, Some 6]
   \<and> appendObserver COBSERVED_LISTENER_MAX
        (foldl (appendObserver COBSERVED_LISTENER_MAX) (cObserved_new COBSERVED_LISTENER_MAX 7)
          [Some (1::nat), Some 2, None, Some 4, Some 5, Some 6, Some 7]) (Some 8)
      = foldl (appendObserver COBSERVED_LISTENER_MAX) (cObserved_new COBSERVED_LISTENER_MAX 7)
          [Some (1::nat), Some 2, None, Some 4, Some 5, Some 6, Some 7]"
  using appendObserver_capped [of COBSERVED_LISTENER_MAX 7
      "[Some (1::nat), Some 2, None, Some 4, Some 5, Some 6, Some 7]" "Some 8"]
  by (simp add: COBSERVED_LISTENER_MAX_def appendObserver_def cObserved_new_def)

lemma notify_loop_offer:
  "unat (ucListenerCount s) \<le> length (pxListener s) \<Longrightarrow>
   notify_loop update s ucI calls w =
         (case offer update s (List.map_filter (\<lambda>p. p)
                 (drop (unat ucI) (take (unat (ucListenerCount s)) (pxListener s)))) w of
            (tr, w') \<Rightarrow> (calls @ tr, w'))"
proof (induction update s ucI calls w rule: notify_loop.induct)
  case (1 update s ucI calls w)
  note inv = "1.prems"
  let ?k = "unat (ucListenerCount s)"
  show ?case
  proof (cases "ucI < ucListenerCount s")
    case False
    then have "?k \<le> unat ucI" by (simp add: word_less_nat_alt)
    then show ?thesis using False
      by (subst notify_loop.simps) (simp add: map_filter_simps)
  next
    case True
    then have lt: "unat ucI < ?k" by (simp add: word_less_nat_alt)
    have inc: "unat (ucI + 1) = Suc (unat ucI)" by (rule unat_inc_u8 [OF True])
    have dr: "drop (unat ucI) (take ?k (pxListener s))
              = pxListener s ! unat ucI # drop (Suc (unat ucI)) (take ?k (pxListener s))"
      using lt inv by (simp add: Cons_nth_drop_Suc [symmetric])
    show ?thesis
    proof (cases "pxListener s ! unat ucI")
      case None
      show ?thesis
        using True None "1.IH"(1) [OF True None inv]
        by (subst notify_loop.simps) (simp add: dr inc map_filter_simps)
    next
      case (Some l)
      obtain b w' where u: "update l s w = (b, w')" by (cases "update l s w")
      show ?thesis
      proof (cases b)
        case True
        then show ?thesis using \<open>ucI < ucListenerCount s\<close> Some u
          by (subst notify_loop.simps) (simp add: dr map_filter_simps)
      next
        case False
        have ih: "notify_loop update s (ucI + 1) (calls @ [(l, False)]) w' =
           (case offer update s (List.map_filter (\<lambda>p. p)
                 (drop (unat (ucI + 1)) (take (unat (ucListenerCount s)) (pxListener s)))) w' of
            (tr, w'') \<Rightarrow> ((calls @ [(l, False)]) @ tr, w''))"
          using "1.IH"(2) [OF \<open>ucI < ucListenerCount s\<close> Some u [symmetric] _ inv] False by simp
        show ?thesis
          using \<open>ucI < ucListenerCount s\<close> Some u False ih
          by (subst notify_loop.simps) (simp add: dr inc map_filter_simps split: prod.splits)
      qed
    qed
  qed
qed

lemma offer_prefix:
  "map fst (fst (offer update s ls w)) = take (length (fst (offer update s ls w))) ls"
proof (induction ls arbitrary: w)
  case Nil
  show ?case by simp
next
  case (Cons l ls)
  obtain b w' where u: "update l s w = (b, w')" by (cases "update l s w")
  obtain tr w'' where o: "offer update s ls w' = (tr, w'')" by (cases "offer update s ls w'")
  show ?case using Cons [of w'] u o by (cases b) simp_all
qed

lemma offer_stops_at_true:
  "Suc i < length (fst (offer update s ls w)) \<Longrightarrow> \<not> snd (fst (offer update s ls w) ! i)"
proof (induction ls arbitrary: w i)
  case Nil
  then show ?case by simp
next
  case (Cons l ls)
  obtain b w' where u: "update l s w = (b, w')" by (cases "update l s w")
  show ?case
  proof (cases b)
    case True
    then show ?thesis using Cons.prems u by simp
  next
    case False
    obtain tr w'' where o: "offer update s ls w' = (tr, w'')" by (cases "offer update s ls w'")
    show ?thesis
    proof (cases i)
      case 0
      then show ?thesis using u False o by simp
    next
      case (Suc j)
      then have "Suc j < length (fst (offer update s ls w'))" using Cons.prems u False o by simp
      from Cons.IH [OF this] show ?thesis using Suc u False o by simp
    qed
  qed
qed

lemma offer_all_false:
  "\<forall>c \<in> set (fst (offer update s ls w)). \<not> snd c \<Longrightarrow> map fst (fst (offer update s ls w)) = ls"
proof (induction ls arbitrary: w)
  case Nil
  show ?case by simp
next
  case (Cons l ls)
  obtain b w' where u: "update l s w = (b, w')" by (cases "update l s w")
  obtain tr w'' where o: "offer update s ls w' = (tr, w'')" by (cases "offer update s ls w'")
  have nb: "\<not> b" using Cons.prems u by (cases b) simp_all
  then have "\<forall>c \<in> set (fst (offer update s ls w')). \<not> snd c" using Cons.prems u o by simp
  from Cons.IH [OF this] show ?case using u nb o by simp
qed

text \<open>
  C7. On an object whose count does not exceed its slot array (which every object built
  by the constructor and \<open>appendObserver\<close> satisfies), \<open>notify\<close> does what \<open>offer\<close>
  does on the registered listeners: the listeners it calls are an initial segment of
  \<open>listeners s\<close>, in registration order and one call each; every call but the last
  returned false, so it stops at the first listener that accepts and calls none after it;
  and when no call returned true, all of \<open>listeners s\<close> were called.
\<close>

theorem notify_chain:
  assumes "unat (ucListenerCount s) \<le> length (pxListener s)"
  shows "notify update s w = offer update s (listeners s) w
       \<and> map fst (fst (notify update s w)) = take (length (fst (notify update s w))) (listeners s)
       \<and> (\<forall>i. Suc i < length (fst (notify update s w)) \<longrightarrow> \<not> snd (fst (notify update s w) ! i))
       \<and> ((\<forall>c \<in> set (fst (notify update s w)). \<not> snd c) \<longrightarrow>
            map fst (fst (notify update s w)) = listeners s)"
proof -
  have eq: "notify update s w = offer update s (listeners s) w"
    unfolding notify_def listeners_def
    by (simp add: notify_loop_offer [OF assms] split: prod.splits)
  show ?thesis
    unfolding eq
    by (intro conjI allI impI refl offer_prefix offer_stops_at_true offer_all_false)
qed

lemma notify_example_accept:
  "notify (\<lambda>l s w. (l = 2, w @ [l]))
        \<lparr>ulEvent = 0, ucListenerCount = 4, pxListener = [Some (1::nat), None, Some 2, Some 3, None, None]\<rparr> []
      = ([(1, False), (2, True)], [1, 2])"
  by code_simp

lemma notify_example_pass:
  "notify (\<lambda>l s w. (False, w @ [l]))
        \<lparr>ulEvent = 0, ucListenerCount = 4, pxListener = [Some (1::nat), None, Some 2, Some 3, None, None]\<rparr> []
      = ([(1, False), (2, False), (3, False)], [1, 2, 3])"
  by code_simp

theorem notify_chain_witness:
  "unat (ucListenerCount \<lparr>ulEvent = 0, ucListenerCount = 4,
           pxListener = [Some (1::nat), None, Some 2, Some 3, None, None]\<rparr>)
     \<le> length (pxListener \<lparr>ulEvent = 0, ucListenerCount = 4,
           pxListener = [Some (1::nat), None, Some 2, Some 3, None, None]\<rparr>)
   \<and> listeners \<lparr>ulEvent = 0, ucListenerCount = 4,
           pxListener = [Some (1::nat), None, Some 2, Some 3, None, None]\<rparr> = [1, 2, 3]
   \<and> notify (\<lambda>l s w. (l = 2, w @ [l]))
        \<lparr>ulEvent = 0, ucListenerCount = 4, pxListener = [Some (1::nat), None, Some 2, Some 3, None, None]\<rparr> []
      = ([(1, False), (2, True)], [1, 2])
   \<and> notify (\<lambda>l s w. (False, w @ [l]))
        \<lparr>ulEvent = 0, ucListenerCount = 4, pxListener = [Some (1::nat), None, Some 2, Some 3, None, None]\<rparr> []
      = ([(1, False), (2, False), (3, False)], [1, 2, 3])"
  using notify_chain [of "\<lparr>ulEvent = 0, ucListenerCount = 4,
           pxListener = [Some (1::nat), None, Some 2, Some 3, None, None]\<rparr>" "\<lambda>l s w. (l = 2, w @ [l])" "[]"]
    notify_chain [of "\<lparr>ulEvent = 0, ucListenerCount = 4,
           pxListener = [Some (1::nat), None, Some 2, Some 3, None, None]\<rparr>" "\<lambda>l s w. (False, w @ [l])" "[]"]
    notify_example_accept notify_example_pass
  by (simp add: listeners_def map_filter_simps)

subsection \<open>Interrupt dispatch table: \<open>nSupport::cIrqMonitor\<close>\<close>

lemma attach_refused:
  "\<not> unat pin < CIRQMONITORED_MAX \<or> handler m ! unat pin \<noteq> None \<Longrightarrow> attach pin h mode m = (False, m)"
  by (auto simp: attach_def)

lemma attach_twice:
  assumes len: "length (handler m) = CIRQMONITORED_MAX"
  shows "attach pin h2 mode2 (snd (attach pin h1 mode1 m)) = (False, snd (attach pin h1 mode1 m))"
  using len by (auto simp: attach_def)

lemma attach_success:
  assumes len: "length (handler m) = CIRQMONITORED_MAX" and ok: "fst (attach pin h1 mode1 m)"
  shows "handler (snd (attach pin h1 mode1 m)) ! unat pin = Some h1"
    and "handler (snd (attach pin h2 mode2 (snd (attach pin h1 mode1 m)))) ! unat pin = Some h1"
    and "fst (deattach pin (snd (attach pin h1 mode1 m)))"
    and "fst (attach pin h2 mode2 (snd (deattach pin (snd (attach pin h1 mode1 m)))))"
    and "handler (snd (attach pin h2 mode2 (snd (deattach pin (snd (attach pin h1 mode1 m)))))) ! unat pin = Some h2"
  using len ok by (auto simp: attach_def deattach_def split: if_splits)

lemma deattach_reports:
  assumes len: "length (handler m) = CIRQMONITORED_MAX"
  shows "fst (deattach pin m) \<longleftrightarrow> snd (deattach pin m) \<noteq> m"
proof (cases "unat pin < CIRQMONITORED_MAX \<and> handler m ! unat pin \<noteq> None")
  case True
  then have "(handler m)[unat pin := None] ! unat pin \<noteq> handler m ! unat pin"
    using len by auto
  then have "(handler m)[unat pin := None] \<noteq> handler m" by metis
  then have "m\<lparr>handler := (handler m)[unat pin := None]\<rparr> \<noteq> m"
    by (metis cIrqMonitor.select_convs(1) cIrqMonitor.surjective cIrqMonitor.update_convs(1))
  then show ?thesis using True by (simp add: deattach_def)
next
  case False
  then show ?thesis by (auto simp: deattach_def)
qed

lemma attach_free:
  "unat pin < CIRQMONITORED_MAX \<Longrightarrow> handler m ! unat pin = None \<Longrightarrow>
   attach pin h mode m =
     (True, m\<lparr>handler := (handler m)[unat pin := Some h],
              attachInterrupt_calls := attachInterrupt_calls m @ [(pin, getISRPtr pin, mode)]\<rparr>)"
  by (simp add: attach_def)

lemma deattach_occupied:
  "unat pin < CIRQMONITORED_MAX \<Longrightarrow> handler m ! unat pin \<noteq> None \<Longrightarrow>
   deattach pin m = (True, m\<lparr>handler := (handler m)[unat pin := None]\<rparr>)"
  by (simp add: deattach_def)

lemma deattach_refused:
  "\<not> unat pin < CIRQMONITORED_MAX \<or> handler m ! unat pin = None \<Longrightarrow> deattach pin m = (False, m)"
  by (auto simp: deattach_def)

text \<open>
  C9. On the 24-slot dispatch table. \<open>attach\<close> on an out-of-range or occupied pin
  returns false and returns the table as it was. \<open>attach\<close> on a free pin in range
  returns true, puts the handler into that slot, leaves every other slot as it was and
  arms the interrupt; a second \<open>attach\<close> on the pin then returns false and changes
  nothing, so the first handler stays; \<open>deattach\<close> then returns true and empties the
  slot, and an \<open>attach\<close> of another handler after it succeeds and installs that
  handler. In any state a second \<open>attach\<close> right after a first is refused.
  \<open>deattach\<close> on an attached pin returns true and empties the slot, on any other pin
  it returns false and changes nothing: it returns true exactly when it changed the
  table.
\<close>

theorem attach_deattach_contract:
  assumes len: "length (handler m) = CIRQMONITORED_MAX"
  shows "(\<not> unat pin < CIRQMONITORED_MAX \<or> handler m ! unat pin \<noteq> None
            \<longrightarrow> attach pin h1 mode1 m = (False, m))
       \<and> (unat pin < CIRQMONITORED_MAX \<and> handler m ! unat pin = None
            \<longrightarrow> attach pin h1 mode1 m =
                  (True, m\<lparr>handler := (handler m)[unat pin := Some h1],
                           attachInterrupt_calls :=
                             attachInterrupt_calls m @ [(pin, getISRPtr pin, mode1)]\<rparr>)
               \<and> handler (snd (attach pin h1 mode1 m)) ! unat pin = Some h1
               \<and> (\<forall>i. i \<noteq> unat pin \<longrightarrow>
                     handler (snd (attach pin h1 mode1 m)) ! i = handler m ! i)
               \<and> attach pin h2 mode2 (snd (attach pin h1 mode1 m))
                    = (False, snd (attach pin h1 mode1 m))
               \<and> handler (snd (attach pin h2 mode2 (snd (attach pin h1 mode1 m)))) ! unat pin = Some h1
               \<and> deattach pin (snd (attach pin h1 mode1 m))
                    = (True, (snd (attach pin h1 mode1 m))\<lparr>handler := handler m\<rparr>)
               \<and> fst (attach pin h2 mode2 (snd (deattach pin (snd (attach pin h1 mode1 m)))))
               \<and> handler (snd (attach pin h2 mode2 (snd (deattach pin (snd (attach pin h1 mode1 m))))))
                    = (handler m)[unat pin := Some h2])
       \<and> attach pin h2 mode2 (snd (attach pin h1 mode1 m)) = (False, snd (attach pin h1 mode1 m))
       \<and> (fst (attach pin h1 mode1 m) \<longrightarrow>
             handler (snd (attach pin h1 mode1 m)) ! unat pin = Some h1
           \<and> handler (snd (attach pin h2 mode2 (snd (attach pin h1 mode1 m)))) ! unat pin = Some h1
           \<and> fst (deattach pin (snd (attach pin h1 mode1 m)))
           \<and> fst (attach pin h2 mode2 (snd (deattach pin (snd (attach pin h1 mode1 m)))))
           \<and> handler (snd (attach pin h2 mode2 (snd (deattach pin (snd (attach pin h1 mode1 m))))))
                 ! unat pin = Some h2)
       \<and> (unat pin < CIRQMONITORED_MAX \<and> handler m ! unat pin \<noteq> None
            \<longrightarrow> deattach pin m = (True, m\<lparr>handler := (handler m)[unat pin := None]\<rparr>))
       \<and> (\<not> unat pin < CIRQMONITORED_MAX \<or> handler m ! unat pin = None
            \<longrightarrow> deattach pin m = (False, m))
       \<and> (fst (deattach pin m) \<longleftrightarrow> snd (deattach pin m) \<noteq> m)
       \<and> (fst (deattach pin m) \<longleftrightarrow> isAttached pin m)"
proof -
  have query: "fst (deattach pin m) \<longleftrightarrow> isAttached pin m"
    by (simp add: deattach_def isAttached_def)
  have free: "attach pin h1 mode1 m =
                  (True, m\<lparr>handler := (handler m)[unat pin := Some h1],
                           attachInterrupt_calls :=
                             attachInterrupt_calls m @ [(pin, getISRPtr pin, mode1)]\<rparr>)
               \<and> handler (snd (attach pin h1 mode1 m)) ! unat pin = Some h1
               \<and> (\<forall>i. i \<noteq> unat pin \<longrightarrow>
                     handler (snd (attach pin h1 mode1 m)) ! i = handler m ! i)
               \<and> attach pin h2 mode2 (snd (attach pin h1 mode1 m))
                    = (False, snd (attach pin h1 mode1 m))
               \<and> handler (snd (attach pin h2 mode2 (snd (attach pin h1 mode1 m)))) ! unat pin = Some h1
               \<and> deattach pin (snd (attach pin h1 mode1 m))
                    = (True, (snd (attach pin h1 mode1 m))\<lparr>handler := handler m\<rparr>)
               \<and> fst (attach pin h2 mode2 (snd (deattach pin (snd (attach pin h1 mode1 m)))))
               \<and> handler (snd (attach pin h2 mode2 (snd (deattach pin (snd (attach pin h1 mode1 m))))))
                    = (handler m)[unat pin := Some h2]"
    if inrange: "unat pin < CIRQMONITORED_MAX" and empty: "handler m ! unat pin = None"
  proof -
    define m1 where "m1 = m\<lparr>handler := (handler m)[unat pin := Some h1],
                             attachInterrupt_calls :=
                               attachInterrupt_calls m @ [(pin, getISRPtr pin, mode1)]\<rparr>"
    have a1: "attach pin h1 mode1 m = (True, m1)"
      unfolding m1_def by (rule attach_free [OF inrange empty])
    have slot: "handler m1 ! unat pin = Some h1" unfolding m1_def using inrange len by simp
    have others: "\<forall>i. i \<noteq> unat pin \<longrightarrow> handler m1 ! i = handler m ! i" unfolding m1_def by simp
    have a2: "attach pin h2 mode2 m1 = (False, m1)"
      using slot by (intro attach_refused) simp
    have restored: "(handler m1)[unat pin := None] = handler m"
      unfolding m1_def using empty inrange len by (simp add: list_update_same_conv)
    have d: "deattach pin m1 = (True, m1\<lparr>handler := handler m\<rparr>)"
      using deattach_occupied [OF inrange, of m1] slot restored by simp
    have a3: "attach pin h2 mode2 (m1\<lparr>handler := handler m\<rparr>) =
        (True, m1\<lparr>handler := (handler m)[unat pin := Some h2],
                  attachInterrupt_calls := attachInterrupt_calls m1 @ [(pin, getISRPtr pin, mode2)]\<rparr>)"
      using attach_free [OF inrange, of "m1\<lparr>handler := handler m\<rparr>" h2 mode2] empty by simp
    show ?thesis unfolding a1 using slot others a2 d a3 by (simp add: m1_def [symmetric])
  qed
  have p1: "\<not> unat pin < CIRQMONITORED_MAX \<or> handler m ! unat pin \<noteq> None
            \<longrightarrow> attach pin h1 mode1 m = (False, m)"
    using attach_refused [of pin m h1 mode1] by blast
  have p2: "unat pin < CIRQMONITORED_MAX \<and> handler m ! unat pin = None
            \<longrightarrow> attach pin h1 mode1 m =
                  (True, m\<lparr>handler := (handler m)[unat pin := Some h1],
                           attachInterrupt_calls :=
                             attachInterrupt_calls m @ [(pin, getISRPtr pin, mode1)]\<rparr>)
               \<and> handler (snd (attach pin h1 mode1 m)) ! unat pin = Some h1
               \<and> (\<forall>i. i \<noteq> unat pin \<longrightarrow>
                     handler (snd (attach pin h1 mode1 m)) ! i = handler m ! i)
               \<and> attach pin h2 mode2 (snd (attach pin h1 mode1 m))
                    = (False, snd (attach pin h1 mode1 m))
               \<and> handler (snd (attach pin h2 mode2 (snd (attach pin h1 mode1 m)))) ! unat pin = Some h1
               \<and> deattach pin (snd (attach pin h1 mode1 m))
                    = (True, (snd (attach pin h1 mode1 m))\<lparr>handler := handler m\<rparr>)
               \<and> fst (attach pin h2 mode2 (snd (deattach pin (snd (attach pin h1 mode1 m)))))
               \<and> handler (snd (attach pin h2 mode2 (snd (deattach pin (snd (attach pin h1 mode1 m))))))
                    = (handler m)[unat pin := Some h2]"
    using free by blast
  have p3: "attach pin h2 mode2 (snd (attach pin h1 mode1 m)) = (False, snd (attach pin h1 mode1 m))"
    by (rule attach_twice [OF len])
  have p4: "fst (attach pin h1 mode1 m) \<longrightarrow>
             handler (snd (attach pin h1 mode1 m)) ! unat pin = Some h1
           \<and> handler (snd (attach pin h2 mode2 (snd (attach pin h1 mode1 m)))) ! unat pin = Some h1
           \<and> fst (deattach pin (snd (attach pin h1 mode1 m)))
           \<and> fst (attach pin h2 mode2 (snd (deattach pin (snd (attach pin h1 mode1 m)))))
           \<and> handler (snd (attach pin h2 mode2 (snd (deattach pin (snd (attach pin h1 mode1 m))))))
                 ! unat pin = Some h2"
    by (intro conjI impI) (rule attach_success [OF len]; assumption)+
  have p5: "unat pin < CIRQMONITORED_MAX \<and> handler m ! unat pin \<noteq> None
            \<longrightarrow> deattach pin m = (True, m\<lparr>handler := (handler m)[unat pin := None]\<rparr>)"
    by (simp add: deattach_occupied)
  have p6: "\<not> unat pin < CIRQMONITORED_MAX \<or> handler m ! unat pin = None
            \<longrightarrow> deattach pin m = (False, m)"
    using deattach_refused [of pin m] by blast
  have p7: "fst (deattach pin m) \<longleftrightarrow> snd (deattach pin m) \<noteq> m" by (rule deattach_reports [OF len])
  show ?thesis by (intro conjI) (fact p1 p2 p3 p4 p5 p6 p7 query)+
qed

theorem attach_deattach_contract_witness:
  "length (handler (cIrqMonitor_init :: nat cIrqMonitor)) = CIRQMONITORED_MAX
   \<and> unat (3 :: uint32_t) < CIRQMONITORED_MAX
   \<and> handler (cIrqMonitor_init :: nat cIrqMonitor) ! unat (3 :: uint32_t) = None
   \<and> attach 3 (1::nat) ePINMODE_RISING cIrqMonitor_init
       = (True, \<lparr>handler = (replicate 24 None)[3 := Some 1],
                 attachInterrupt_calls = [(3, 3, ePINMODE_RISING)]\<rparr>)
   \<and> attach 3 (2::nat) ePINMODE_CHANGE (snd (attach 3 (1::nat) ePINMODE_RISING cIrqMonitor_init))
       = (False, snd (attach 3 (1::nat) ePINMODE_RISING cIrqMonitor_init))
   \<and> fst (attach 3 (2::nat) ePINMODE_CHANGE
            (snd (deattach 3 (snd (attach 3 (1::nat) ePINMODE_RISING cIrqMonitor_init)))))
   \<and> \<not> unat (24 :: uint32_t) < CIRQMONITORED_MAX
   \<and> attach 24 (1::nat) ePINMODE_RISING cIrqMonitor_init = (False, cIrqMonitor_init)
   \<and> deattach 3 (cIrqMonitor_init :: nat cIrqMonitor) = (False, cIrqMonitor_init)
   \<and> length (handler \<lparr>handler = (replicate 24 None)[3 := Some (1::nat)],
                        attachInterrupt_calls = [(3, 3, ePINMODE_RISING)]\<rparr>) = CIRQMONITORED_MAX
   \<and> handler \<lparr>handler = (replicate 24 None)[3 := Some (1::nat)],
                attachInterrupt_calls = [(3, 3, ePINMODE_RISING)]\<rparr> ! unat (3 :: uint32_t) \<noteq> None
   \<and> deattach 3 \<lparr>handler = (replicate 24 None)[3 := Some (1::nat)],
                   attachInterrupt_calls = [(3, 3, ePINMODE_RISING)]\<rparr>
       = (True, \<lparr>handler = replicate 24 None, attachInterrupt_calls = [(3, 3, ePINMODE_RISING)]\<rparr>)"
  using attach_deattach_contract [of "cIrqMonitor_init :: nat cIrqMonitor" 3 1 ePINMODE_RISING 2 ePINMODE_CHANGE]
    attach_deattach_contract [of "cIrqMonitor_init :: nat cIrqMonitor" 24 1 ePINMODE_RISING 2 ePINMODE_CHANGE]
    attach_deattach_contract [of "\<lparr>handler = (replicate 24 None)[3 := Some (1::nat)],
                   attachInterrupt_calls = [(3, 3, ePINMODE_RISING)]\<rparr>" 3 1 ePINMODE_RISING 2 ePINMODE_CHANGE]
  by (simp add: cIrqMonitor_init_def CIRQMONITORED_MAX_def attach_def deattach_def isAttached_def getISRPtr_def)

subsection \<open>Text lines: \<open>nText::cTextLine\<close>\<close>

lemma uint_less_int: "uint (w :: 'a::len word) < int n \<longleftrightarrow> unat w < n"
  unfolding uint_nat by (rule of_nat_less_iff)

lemma uint_less_int_left: "int n < uint (w :: 'a::len word) \<longleftrightarrow> n < unat w"
  unfolding uint_nat by (rule of_nat_less_iff)

lemma src_read_word:
  "src_read src (uint (w :: uint8_t)) =
     (if unat w < length src then Inr (src ! unat w) else Inl (SourceOutOfBounds (uint w)))"
  by (simp add: src_read_def uint_less_int)

lemma buf_write_word:
  "buf_write buf (uint (w :: uint8_t)) c =
     (if unat w < length buf then Inr (buf[unat w := c]) else Inl (BufferOutOfBounds (uint w)))"
  by (simp add: buf_write_def uint_less_int)

lemma setLine_copy_result:
  "unat len \<le> length pcsData \<Longrightarrow> unat len \<le> length buf \<Longrightarrow> unat ucI \<le> unat len \<Longrightarrow>
   setLine_copy buf pcsData ucI len =
     Inr (take (unat ucI) buf @ take (unat len - unat ucI) (drop (unat ucI) pcsData) @ drop (unat len) buf)"
proof (induction buf pcsData ucI len rule: setLine_copy.induct)
  case (1 buf pcsData ucI len)
  show ?case
  proof (cases "ucI < len")
    case False
    then have "unat ucI = unat len" using "1.prems"(3) by (simp add: word_less_nat_alt)
    then show ?thesis using False by (subst setLine_copy.simps) simp
  next
    case True
    then have lt: "unat ucI < unat len" by (simp add: word_less_nat_alt)
    have inc: "unat (ucI + 1) = Suc (unat ucI)" by (rule unat_inc_u8 [OF True])
    have rd: "src_read pcsData (uint ucI) = Inr (pcsData ! unat ucI)"
      using lt "1.prems"(1) by (simp add: src_read_word)
    have wr: "buf_write buf (uint ucI) (pcsData ! unat ucI) = Inr (buf[unat ucI := pcsData ! unat ucI])"
      using lt "1.prems"(2) by (simp add: buf_write_word)
    have ih: "setLine_copy (buf[unat ucI := pcsData ! unat ucI]) pcsData (ucI + 1) len =
      Inr (take (unat (ucI + 1)) (buf[unat ucI := pcsData ! unat ucI])
           @ take (unat len - unat (ucI + 1)) (drop (unat (ucI + 1)) pcsData)
           @ drop (unat len) (buf[unat ucI := pcsData ! unat ucI]))"
      using "1.IH" [OF True rd wr] "1.prems" lt inc by simp
    have t1: "take (Suc (unat ucI)) (buf[unat ucI := pcsData ! unat ucI]) = take (unat ucI) buf @ [pcsData ! unat ucI]"
      using lt "1.prems"(2) by (simp add: take_Suc_conv_app_nth)
    have t2: "take (unat len - unat ucI) (drop (unat ucI) pcsData)
              = pcsData ! unat ucI # take (unat len - Suc (unat ucI)) (drop (Suc (unat ucI)) pcsData)"
    proof -
      have "drop (unat ucI) pcsData = pcsData ! unat ucI # drop (Suc (unat ucI)) pcsData"
        using lt "1.prems"(1) by (simp add: Cons_nth_drop_Suc)
      moreover have "unat len - unat ucI = Suc (unat len - Suc (unat ucI))" using lt by simp
      ultimately show ?thesis by simp
    qed
    have t3: "drop (unat len) (buf[unat ucI := pcsData ! unat ucI]) = drop (unat len) buf"
      using lt by simp
    show ?thesis
      using True rd wr ih by (subst setLine_copy.simps) (simp add: inc t1 t2 t3)
  qed
qed

lemma setLine_copy_from_start:
  "unat len \<le> length pcsData \<Longrightarrow> unat len \<le> length buf \<Longrightarrow>
   setLine_copy buf pcsData 0 len = Inr (take (unat len) pcsData @ drop (unat len) buf)"
  using setLine_copy_result [of len pcsData buf 0] by simp

lemma stored_length:
  assumes "1 \<le> N"
  shows "unat (if uint ucLen > int N - 1 then word_of_int (int N - 1) else ucLen :: uint8_t)
         = min (unat ucLen) (N - 1)"
proof -
  have n: "int N - 1 = int (N - 1)" using assms by simp
  have c: "int N - 1 < uint ucLen \<longleftrightarrow> N - 1 < unat ucLen"
    unfolding n by (rule uint_less_int_left)
  show ?thesis
  proof (cases "N - 1 < unat ucLen")
    case True
    moreover have "unat ucLen < 256" using unsigned_less [of ucLen] by simp
    ultimately have "N - 1 < 2 ^ LENGTH(8)" by simp
    then have "unat (word_of_nat (N - 1) :: uint8_t) = N - 1"
      by (simp only: unat_of_nat mod_less)
    then show ?thesis using True c unfolding n by simp
  next
    case False
    then show ?thesis using c by simp
  qed
qed

lemma buf_read_pred:
  "buf_read buf (uint (w :: uint8_t) - 1) =
     (if unat w = 0 then Inl (BufferOutOfBounds (- 1))
      else if unat w - 1 < length buf then Inr (buf ! (unat w - 1))
      else Inl (BufferOutOfBounds (uint w - 1)))"
proof (cases "unat w = 0")
  case True
  then have "uint w = 0" unfolding uint_nat by simp
  then show ?thesis using True by (simp add: buf_read_def)
next
  case False
  have pos: "0 < uint w" using False uint_less_int_left [of 0 w] by simp
  have a: "0 \<le> uint w - 1" using pos by arith
  have b: "nat (uint w - 1) = unat w - 1" unfolding unat_eq_nat_uint using pos by arith
  have c: "uint w - 1 < int (length buf) \<longleftrightarrow> unat w - 1 < length buf"
    unfolding unat_eq_nat_uint using pos by arith
  show ?thesis using False pos unfolding buf_read_def b c by simp
qed

lemma setLine_result:
  assumes N: "1 \<le> N"
    and m: "m = min (unat ucLen) (N - 1)"
    and buf: "length (scLine l) = N + 1"
    and src: "m \<le> length pcsData"
  shows "setLine N l pcsData ucLen =
     (if m = 0 then Inl (BufferOutOfBounds (- 1))
      else Inr \<lparr>scLine = (if pcsData ! (m - 1) \<noteq> NUL
                            then (take m pcsData @ drop m (scLine l))[m := NUL]
                            else take m pcsData @ drop m (scLine l)),
                 ucLength = of_nat m\<rparr>)"
proof -
  define len :: uint8_t where "len = (if uint ucLen > int N - 1 then word_of_int (int N - 1) else ucLen)"
  define B where "B = take m pcsData @ drop m (scLine l)"
  have ulen: "unat len = m" unfolding len_def m by (rule stored_length [OF N])
  then have wlen: "of_nat m = len" by (simp flip: ulen)
  have mN: "m \<le> N - 1" unfolding m by simp
  have copy: "setLine_copy (scLine l) pcsData 0 len = Inr B"
    unfolding B_def using setLine_copy_from_start [of len pcsData "scLine l"] ulen src buf mN by simp
  have lenB: "length B = N + 1" unfolding B_def using src buf mN by simp
  have unfold: "setLine N l pcsData ucLen =
      (case buf_read B (uint len - 1) of
         Inl e \<Rightarrow> Inl e
       | Inr c \<Rightarrow>
           if c \<noteq> NUL
           then (case buf_write B (uint len) NUL of
                   Inl e \<Rightarrow> Inl e
                 | Inr buf' \<Rightarrow> Inr \<lparr>scLine = buf', ucLength = len\<rparr>)
           else Inr \<lparr>scLine = B, ucLength = len\<rparr>)"
    unfolding setLine_def len_def [symmetric] Let_def copy by simp
  show ?thesis
  proof (cases "m = 0")
    case True
    then show ?thesis unfolding unfold by (simp add: buf_read_pred ulen)
  next
    case False
    then have last: "B ! (m - 1) = pcsData ! (m - 1)"
      unfolding B_def using src by (simp add: nth_append)
    have rd: "buf_read B (uint len - 1) = Inr (pcsData ! (m - 1))"
      using False lenB mN last by (simp add: buf_read_pred ulen)
    have wr: "buf_write B (uint len) NUL = Inr (B[m := NUL])"
      using lenB mN N by (simp add: buf_write_word ulen)
    show ?thesis unfolding unfold rd wr using False by (simp add: wlen B_def)
  qed
qed

lemma setLine_Inr_length:
  "setLine N l pcsData ucLen = Inr l' \<Longrightarrow>
   ucLength l' = (if uint ucLen > int N - 1 then word_of_int (int N - 1) else ucLen)"
  unfolding setLine_def Let_def by (auto split: sum.splits if_splits)

lemma setLine_length_bound:
  assumes "1 \<le> N" and "setLine N l pcsData ucLen = Inr l'"
  shows "unat (getLineLength l') = min (unat ucLen) (N - 1)"
  unfolding getLineLength_def setLine_Inr_length [OF assms(2)] by (rule stored_length [OF assms(1)])

lemma setLine_nonempty:
  assumes N: "1 \<le> N"
    and m: "m = min (unat ucLen) (N - 1)"
    and m1: "1 \<le> m"
    and buf: "length (scLine l) = N + 1"
    and src: "m \<le> length pcsData"
  shows "\<exists>l'. setLine N l pcsData ucLen = Inr l'
            \<and> unat (getLineLength l') = m
            \<and> take m (getLine l') = take m pcsData
            \<and> length (getLine l') = N + 1
            \<and> (getLine l' ! (m - 1) = NUL \<or> getLine l' ! m = NUL)"
proof -
  define B where "B = take m pcsData @ drop m (scLine l)"
  define l' where "l' = \<lparr>scLine = (if pcsData ! (m - 1) \<noteq> NUL then B[m := NUL] else B),
                         ucLength = (of_nat m :: uint8_t)\<rparr>"
  have mN: "m \<le> N - 1" unfolding m by simp
  have res: "setLine N l pcsData ucLen = Inr l'"
    using setLine_result [OF N m buf src] m1 unfolding l'_def B_def by simp
  have lenB: "length B = N + 1" unfolding B_def using src buf mN by simp
  have tk: "take m B = take m pcsData" unfolding B_def using src by simp
  have lastB: "B ! (m - 1) = pcsData ! (m - 1)" unfolding B_def using src m1 by (simp add: nth_append)
  have "unat (getLineLength l') = m"
    using setLine_length_bound [OF N res] m by simp
  moreover have "take m (getLine l') = take m pcsData"
    unfolding getLine_def l'_def using tk by simp
  moreover have "length (getLine l') = N + 1"
    unfolding getLine_def l'_def using lenB by simp
  moreover have "getLine l' ! (m - 1) = NUL \<or> getLine l' ! m = NUL"
    unfolding getLine_def l'_def using lenB lastB mN N by simp
  ultimately show ?thesis using res by blast
qed

lemma strlen_terminated:
  assumes "NUL \<notin> set s"
  shows "strlen (s @ NUL # rest) = Inr (length s)"
proof -
  have "takeWhile (\<lambda>c. c \<noteq> NUL) (s @ NUL # rest) = s"
    using assms by (induction s) auto
  then show ?thesis by (simp add: strlen_def)
qed

lemma cTextLine_cstr_nonempty:
  assumes N: "2 \<le> N"
    and s: "NUL \<notin> set s" and L1: "1 \<le> length s" and L255: "length s < 256"
    and m: "m = min (length s) (N - 1)"
    and buf: "length (scLine l) = N + 1"
  shows "\<exists>l'. cTextLine_cstr N l (s @ NUL # rest) = Inr l'
            \<and> unat (getLineLength l') = m
            \<and> take m (getLine l') = take m s
            \<and> getLine l' ! m = NUL"
proof -
  have u: "unat (of_nat (length s) :: uint8_t) = length s"
    using L255 by (simp add: unat_of_nat)
  have m': "m = min (unat (of_nat (length s) :: uint8_t)) (N - 1)" unfolding u by (rule m)
  have m1: "1 \<le> m" using N L1 m by simp
  have mL: "m \<le> length s" using m by simp
  then have src: "m \<le> length (s @ NUL # rest)" by simp
  from setLine_nonempty [OF _ m' m1 buf src] N
  obtain l' where res: "setLine N l (s @ NUL # rest) (of_nat (length s)) = Inr l'"
    and len: "unat (getLineLength l') = m"
    and pre: "take m (getLine l') = take m (s @ NUL # rest)"
    and nul: "getLine l' ! (m - 1) = NUL \<or> getLine l' ! m = NUL"
    by auto
  have pre': "take m (getLine l') = take m s" using pre mL by simp
  have "getLine l' ! (m - 1) = take m (getLine l') ! (m - 1)" using m1 by simp
  also have "\<dots> = s ! (m - 1)" unfolding pre' using m1 by simp
  finally have "getLine l' ! (m - 1) \<in> set s" using m1 mL by simp
  then have "getLine l' ! (m - 1) \<noteq> NUL" using s by metis
  then have "getLine l' ! m = NUL" using nul by simp
  moreover have "cTextLine_cstr N l (s @ NUL # rest) = Inr l'"
    using res by (simp add: cTextLine_cstr_def strlen_terminated [OF s])
  ultimately show ?thesis using len pre' by blast
qed

lemma cTextLine_cstr_256_fault:
  "cTextLine_cstr 8 (cTextLine_default 8 (replicate 9 (CHR ''.''))) (replicate 256 (CHR ''A'') @ [NUL])
   = Inl (BufferOutOfBounds (- 1))"
  by code_simp

text \<open>
  C10. \<open>setLine\<close> with length 0 on a \<open>cTextLine<8>\<close>: the terminator check reads
  \<open>_scLine[-1]\<close>, outside the array.
\<close>

theorem setLine_zero_length_fault:
  "setLine 8 (cTextLine_default 8 (replicate 9 (CHR ''.''))) ''HELLO'' 0 = Inl (BufferOutOfBounds (- 1))"
  by code_simp

text \<open>
  C5. Constructing a \<open>cTextLine<8>\<close> from the empty string (length 0, below \<open>N\<close>):
  the same read of \<open>_scLine[-1]\<close>, so whether position 0 gets its terminator depends on
  memory outside the object. For a source string of 1 to 255 characters
  \<open>cTextLine_cstr_nonempty\<close> above gives what the claim says.
\<close>

theorem cTextLine_cstr_empty_fault:
  "cTextLine_cstr 8 (cTextLine_default 8 (replicate 9 (CHR ''.''))) [NUL] = Inl (BufferOutOfBounds (- 1))"
  by code_simp

lemma buf_read_run_pred:
  "buf_read_run outside buf (uint (w :: uint8_t) - 1) =
     (if unat w = 0 then Inr outside
      else if unat w - 1 < length buf then Inr (buf ! (unat w - 1))
      else Inl (BufferOutOfBounds (uint w - 1)))"
proof (cases "unat w = 0")
  case True
  then have "uint w = 0" unfolding uint_nat by simp
  then show ?thesis using True by (simp add: buf_read_run_def)
next
  case False
  have pos: "0 < uint w" using False uint_less_int_left [of 0 w] by simp
  then have "uint w - 1 \<noteq> - 1" by arith
  then show ?thesis using False buf_read_pred [of buf w] by (simp add: buf_read_run_def)
qed

lemma buf_read_run_agrees:
  "buf_read buf i = Inr c \<Longrightarrow> buf_read_run outside buf i = Inr c"
  by (auto simp: buf_read_run_def buf_read_def split: if_splits)

lemma setLine_run_agrees:
  assumes "setLine N l pcsData ucLen = Inr l'"
  shows "setLine_run N outside l pcsData ucLen = Inr l'"
proof -
  define len :: uint8_t where "len = (if uint ucLen > int N - 1 then word_of_int (int N - 1) else ucLen)"
  obtain buf where copy: "setLine_copy (scLine l) pcsData 0 len = Inr buf"
    using assms unfolding setLine_def len_def [symmetric] Let_def
    by (cases "setLine_copy (scLine l) pcsData 0 len") simp_all
  obtain c where rd: "buf_read buf (uint len - 1) = Inr c"
    using assms unfolding setLine_def len_def [symmetric] Let_def copy
    by (cases "buf_read buf (uint len - 1)") simp_all
  have rd': "buf_read_run outside buf (uint len - 1) = Inr c"
    by (rule buf_read_run_agrees [OF rd])
  have "setLine N l pcsData ucLen = setLine_run N outside l pcsData ucLen"
    unfolding setLine_def setLine_run_def len_def [symmetric] Let_def copy
    by (simp add: rd rd')
  then show ?thesis using assms by simp
qed

lemma setLine_run_result:
  assumes N: "1 \<le> N"
    and m: "m = min (unat ucLen) (N - 1)"
    and buf: "length (scLine l) = N + 1"
    and src: "m \<le> length pcsData"
  shows "setLine_run N outside l pcsData ucLen =
     Inr \<lparr>scLine = (if (if m = 0 then outside else pcsData ! (m - 1)) \<noteq> NUL
                      then (take m pcsData @ drop m (scLine l))[m := NUL]
                      else take m pcsData @ drop m (scLine l)),
           ucLength = of_nat m\<rparr>"
proof -
  define len :: uint8_t where "len = (if uint ucLen > int N - 1 then word_of_int (int N - 1) else ucLen)"
  define B where "B = take m pcsData @ drop m (scLine l)"
  have ulen: "unat len = m" unfolding len_def m by (rule stored_length [OF N])
  then have wlen: "of_nat m = len" by (simp flip: ulen)
  have mN: "m \<le> N - 1" unfolding m by simp
  have copy: "setLine_copy (scLine l) pcsData 0 len = Inr B"
    unfolding B_def using setLine_copy_from_start [of len pcsData "scLine l"] ulen src buf mN by simp
  have lenB: "length B = N + 1" unfolding B_def using src buf mN by simp
  have unfold: "setLine_run N outside l pcsData ucLen =
      (case buf_read_run outside B (uint len - 1) of
         Inl e \<Rightarrow> Inl e
       | Inr c \<Rightarrow>
           if c \<noteq> NUL
           then (case buf_write B (uint len) NUL of
                   Inl e \<Rightarrow> Inl e
                 | Inr buf' \<Rightarrow> Inr \<lparr>scLine = buf', ucLength = len\<rparr>)
           else Inr \<lparr>scLine = B, ucLength = len\<rparr>)"
    unfolding setLine_run_def len_def [symmetric] Let_def copy by simp
  have wr: "buf_write B (uint len) NUL = Inr (B[m := NUL])"
    using lenB mN N by (simp add: buf_write_word ulen)
  show ?thesis
  proof (cases "m = 0")
    case True
    have rd: "buf_read_run outside B (uint len - 1) = Inr outside"
      using True by (simp add: buf_read_run_pred ulen)
    have len0: "len = 0" using wlen True by simp
    show ?thesis unfolding unfold rd wr using True len0 by (simp add: B_def)
  next
    case False
    then have last: "B ! (m - 1) = pcsData ! (m - 1)"
      unfolding B_def using src by (simp add: nth_append)
    have rd: "buf_read_run outside B (uint len - 1) = Inr (pcsData ! (m - 1))"
      using False lenB mN last by (simp add: buf_read_run_pred ulen)
    show ?thesis unfolding unfold rd wr using False by (simp add: wlen B_def)
  qed
qed

lemma setLine_run_length:
  assumes N: "1 \<le> N" and buf: "length (scLine l) = N + 1"
    and src: "min (unat ucLen) (N - 1) \<le> length pcsData"
  shows "\<exists>l'. setLine_run N outside l pcsData ucLen = Inr l'
            \<and> unat (getLineLength l') = min (unat ucLen) (N - 1)"
proof -
  define m where "m = min (unat ucLen) (N - 1)"
  have ul: "unat ucLen < 2 ^ LENGTH(8)" by (rule unsigned_less)
  have "m \<le> unat ucLen" unfolding m_def by simp
  then have m256: "m < 2 ^ LENGTH(8)" using ul by simp
  have "unat (of_nat m :: uint8_t) = m" using m256 by (simp only: unat_of_nat mod_less)
  then show ?thesis
    using setLine_run_result [OF N m_def buf, of pcsData outside] src
    unfolding m_def [symmetric] by (simp add: getLineLength_def)
qed

text \<open>
  C3, amended. Let \<open>N \<ge> 1\<close> and the object have its buffer of \<open>N + 1\<close> characters.
  \<open>setLine\<close> (and the constructor with a length) on a source that holds the characters
  to copy returns with stored length \<open>min length (N - 1)\<close>; the constructor from a
  terminated string of \<open>L\<close> characters returns with stored length
  \<open>min (L mod 256) (N - 1)\<close>, \<open>strlen\<close> being narrowed to 8 bits; both are at most
  \<open>N - 1\<close>, also when no character is stored and the terminator check reads the byte
  before the buffer. A run of the checked \<open>setLine\<close> that returns gives the same
  object. After default construction the stored length is \<open>N mod 256\<close>: above
  \<open>N - 1\<close> for every \<open>N \<le> 255\<close>, at most \<open>N - 1\<close> from 256 on.
\<close>

theorem stored_length_after_setLine:
  assumes N: "1 \<le> N" and buf: "length (scLine l) = N + 1"
  shows "(min (unat ucLen) (N - 1) \<le> length pcsData \<longrightarrow>
            (\<exists>l'. setLine_run N outside l pcsData ucLen = Inr l'
                  \<and> unat (getLineLength l') = min (unat ucLen) (N - 1)
                  \<and> unat (getLineLength l') \<le> N - 1))
       \<and> (min (unat ucLen) (N - 1) \<le> length pcsData \<longrightarrow>
            (\<exists>l'. cTextLine_len_run N outside l pcsData ucLen = Inr l'
                  \<and> unat (getLineLength l') = min (unat ucLen) (N - 1)
                  \<and> unat (getLineLength l') \<le> N - 1))
       \<and> (NUL \<notin> set s \<longrightarrow>
            (\<exists>l'. cTextLine_cstr_run N outside l (s @ NUL # rest) = Inr l'
                  \<and> unat (getLineLength l') = min (length s mod 256) (N - 1)
                  \<and> unat (getLineLength l') \<le> N - 1))
       \<and> (\<forall>l'. setLine N l pcsData ucLen = Inr l' \<longrightarrow> setLine_run N outside l pcsData ucLen = Inr l')
       \<and> unat (getLineLength (cTextLine_default N mem)) = N mod 256
       \<and> (N \<le> 255 \<longrightarrow> \<not> unat (getLineLength (cTextLine_default N mem)) \<le> N - 1)
       \<and> (256 \<le> N \<longrightarrow> unat (getLineLength (cTextLine_default N mem)) \<le> N - 1)"
proof (intro conjI impI allI)
  assume src: "min (unat ucLen) (N - 1) \<le> length pcsData"
  from setLine_run_length [OF N buf src, of outside]
  show "\<exists>l'. setLine_run N outside l pcsData ucLen = Inr l'
                  \<and> unat (getLineLength l') = min (unat ucLen) (N - 1)
                  \<and> unat (getLineLength l') \<le> N - 1"
    by auto
  then show "\<exists>l'. cTextLine_len_run N outside l pcsData ucLen = Inr l'
                  \<and> unat (getLineLength l') = min (unat ucLen) (N - 1)
                  \<and> unat (getLineLength l') \<le> N - 1"
    by (simp add: cTextLine_len_run_def)
next
  assume s: "NUL \<notin> set s"
  have u: "unat (of_nat (length s) :: uint8_t) = length s mod 256"
    by (simp add: unat_of_nat)
  have "length s mod 256 \<le> length s" by simp
  then have src: "min (unat (of_nat (length s) :: uint8_t)) (N - 1) \<le> length (s @ NUL # rest)"
    unfolding u by simp
  from setLine_run_length [OF N buf src, of outside]
  show "\<exists>l'. cTextLine_cstr_run N outside l (s @ NUL # rest) = Inr l'
                  \<and> unat (getLineLength l') = min (length s mod 256) (N - 1)
                  \<and> unat (getLineLength l') \<le> N - 1"
    unfolding u by (auto simp: cTextLine_cstr_run_def strlen_terminated [OF s])
next
  fix l' assume "setLine N l pcsData ucLen = Inr l'"
  then show "setLine_run N outside l pcsData ucLen = Inr l'" by (rule setLine_run_agrees)
next
  show d: "unat (getLineLength (cTextLine_default N mem)) = N mod 256"
    by (simp add: getLineLength_def cTextLine_default_def unat_of_nat)
  { assume "N \<le> 255"
    then show "\<not> unat (getLineLength (cTextLine_default N mem)) \<le> N - 1"
      unfolding d using N by simp }
  { assume "256 \<le> N"
    moreover have "N mod 256 < 256" by simp
    ultimately show "unat (getLineLength (cTextLine_default N mem)) \<le> N - 1"
      unfolding d by linarith }
qed

lemma setLine_run_examples:
  "setLine_run 8 NUL (cTextLine_default 8 (replicate 9 (CHR ''.''))) ''HELLO WORLD'' 11
     = Inr \<lparr>scLine = ''HELLO W'' @ [NUL, CHR ''.''], ucLength = 7\<rparr>"
  "setLine_run 8 NUL (cTextLine_default 8 (replicate 9 (CHR ''.''))) ''HELLO WORLD'' 0
     = Inr \<lparr>scLine = replicate 9 (CHR ''.''), ucLength = 0\<rparr>"
  "cTextLine_cstr_run 8 NUL (cTextLine_default 8 (replicate 9 (CHR ''.''))) (''HELLO'' @ [NUL])
     = Inr \<lparr>scLine = ''HELLO'' @ [NUL, CHR ''.'', CHR ''.'', CHR ''.''], ucLength = 5\<rparr>"
  by code_simp+

theorem stored_length_after_setLine_witness:
  "(1::nat) \<le> 8 \<and> length (scLine (cTextLine_default 8 (replicate 9 (CHR ''.'')))) = 8 + 1
   \<and> min (unat (11 :: uint8_t)) (8 - 1) \<le> length ''HELLO WORLD''
   \<and> setLine_run 8 NUL (cTextLine_default 8 (replicate 9 (CHR ''.''))) ''HELLO WORLD'' 11
       = Inr \<lparr>scLine = ''HELLO W'' @ [NUL, CHR ''.''], ucLength = 7\<rparr>
   \<and> setLine_run 8 NUL (cTextLine_default 8 (replicate 9 (CHR ''.''))) ''HELLO WORLD'' 0
       = Inr \<lparr>scLine = replicate 9 (CHR ''.''), ucLength = 0\<rparr>
   \<and> NUL \<notin> set ''HELLO''
   \<and> cTextLine_cstr_run 8 NUL (cTextLine_default 8 (replicate 9 (CHR ''.''))) (''HELLO'' @ [NUL])
       = Inr \<lparr>scLine = ''HELLO'' @ [NUL, CHR ''.'', CHR ''.'', CHR ''.''], ucLength = 5\<rparr>
   \<and> (8::nat) \<le> 255
   \<and> unat (getLineLength (cTextLine_default 8 (replicate 9 (CHR ''.'')))) = 8"
  using stored_length_after_setLine [of 8 "cTextLine_default 8 (replicate 9 (CHR ''.''))" 11
      "''HELLO WORLD''" NUL "''HELLO''" "[]" "replicate 9 (CHR ''.'')"]
    stored_length_after_setLine [of 8 "cTextLine_default 8 (replicate 9 (CHR ''.''))" 0
      "''HELLO WORLD''" NUL "''HELLO''" "[]" "replicate 9 (CHR ''.'')"]
    setLine_run_examples
  by (simp add: cTextLine_default_def)

text \<open>
  C3 as stated fails at default construction: \<open>cTextLine<8>\<close> starts with stored
  length 8, not at most 7.
\<close>

theorem default_length_counterexample:
  "\<not> unat (getLineLength (cTextLine_default 8 (replicate 9 (CHR ''.'')))) \<le> 8 - 1"
  by (simp add: getLineLength_def cTextLine_default_def)




subsection \<open>Line reader and writer: \<open>nText::cTexter\<close>\<close>

lemma int_le_uint: "int n \<le> uint (w :: 'a::len word) \<longleftrightarrow> n \<le> unat w"
  unfolding uint_nat by (rule of_nat_le_iff)

lemma blockingReadLine_loop_idle:
  "blockingReadLine_loop N (replicate i None @ source) pscData scLast ucLen
   = blockingReadLine_loop N source pscData scLast ucLen"
  by (induction i) simp_all

lemma blockingReadLine_pair_returns:
  assumes N: "2 \<le> N" and len: "length pscData = N + 1"
  shows "blockingReadLine N pscData (replicate i None @ Some CR # replicate j None @ Some LF # rest)
         = Returned (pscData[0 := CR, 1 := LF, 2 := NUL]) 2 rest"
proof -
  have w0: "buf_write pscData 0 CR = Inr (pscData[0 := CR])"
    using len by (simp add: buf_write_def)
  have first: "blockingReadLine_loop N (Some CR # replicate j None @ Some LF # rest) pscData NUL 0
        = blockingReadLine_loop N (replicate j None @ Some LF # rest) (pscData[0 := CR]) CR 1"
    using N w0 by simp
  have w1: "buf_write (pscData[0 := CR]) 1 LF = Inr (pscData[0 := CR, 1 := LF])"
    using len N by (simp add: buf_write_def)
  have w2: "buf_write (pscData[0 := CR, 1 := LF]) 2 NUL = Inr (pscData[0 := CR, 1 := LF, 2 := NUL])"
    using len N by (simp add: buf_write_def)
  have second: "blockingReadLine_loop N (Some LF # rest) (pscData[0 := CR]) CR 1
        = Returned (pscData[0 := CR, 1 := LF, 2 := NUL]) 2 rest"
    using N w1 w2 by simp
  show ?thesis
    unfolding blockingReadLine_def blockingReadLine_loop_idle first second ..
qed

lemma blockingReadLine_loop_small_N:
  "N \<le> 1 \<Longrightarrow> unat ucLen \<le> 1 \<Longrightarrow> 1 \<le> length pscData \<Longrightarrow>
   blockingReadLine_loop N source pscData scLast ucLen \<noteq> Returned b n rest"
proof (induction source arbitrary: pscData scLast ucLen)
  case Nil
  show ?case by simp
next
  case (Cons x source)
  show ?case
  proof (cases x)
    case None
    then show ?thesis using Cons by simp
  next
    case (Some scCurrent)
    have reset: "(if int N \<le> uint ucLen then 0 else ucLen) = 0"
    proof (cases "N \<le> unat ucLen")
      case True
      then show ?thesis by (simp add: int_le_uint)
    next
      case False
      then have "unat ucLen = 0" using Cons.prems(1) by simp
      then have "ucLen = 0" by (simp only: unat_eq_0)
      then show ?thesis by simp
    qed
    have wr: "buf_write pscData 0 scCurrent = Inr (pscData[0 := scCurrent])"
      using Cons.prems(3) by (cases pscData) (simp_all add: buf_write_def)
    have "blockingReadLine_loop N (Some scCurrent # source) pscData scLast ucLen
          = blockingReadLine_loop N source (pscData[0 := scCurrent]) scCurrent 1"
      using reset wr by (simp add: Let_def)
    moreover have "blockingReadLine_loop N source (pscData[0 := scCurrent]) scCurrent 1 \<noteq> Returned b n rest"
      using Cons.IH [of 1 "pscData[0 := scCurrent]" scCurrent] Cons.prems by simp
    ultimately show ?thesis using Some by simp
  qed
qed

text \<open>
  C1, amended. With \<open>N \<ge> 2\<close>, a source that yields carriage-return then line-feed
  with nothing before (idle polls allowed) completes the read on that pair: the guard
  \<open>ucLength>1\<close> is tested after the line-feed has been stored and counted, so the
  length is 2; the buffer starts with the pair and a terminator, the stored length is 2,
  and nothing more of the source is consumed. With \<open>N \<le> 1\<close> the length never exceeds 1
  and no source at all completes a read.
\<close>

theorem blockingReadLine_bare_pair:
  assumes "length pscData = N + 1"
  shows "(2 \<le> N \<longrightarrow>
            blockingReadLine N pscData (replicate i None @ Some CR # replicate j None @ Some LF # rest)
            = Returned (pscData[0 := CR, 1 := LF, 2 := NUL]) 2 rest)
       \<and> (N \<le> 1 \<longrightarrow> (\<forall>source b n rest'. blockingReadLine N pscData source \<noteq> Returned b n rest'))"
proof (intro conjI impI allI)
  assume "2 \<le> N"
  then show "blockingReadLine N pscData (replicate i None @ Some CR # replicate j None @ Some LF # rest)
            = Returned (pscData[0 := CR, 1 := LF, 2 := NUL]) 2 rest"
    using assms by (rule blockingReadLine_pair_returns)
next
  fix source b n rest'
  assume "N \<le> 1"
  then show "blockingReadLine N pscData source \<noteq> Returned b n rest'"
    unfolding blockingReadLine_def using assms by (intro blockingReadLine_loop_small_N) simp_all
qed

lemma blockingReadLine_pair_example:
  "blockingReadLine 32 (replicate 33 (CHR ''.'')) [None, Some CR, None, None, Some LF, Some (CHR ''x'')]
   = Returned (CR # LF # NUL # replicate 30 (CHR ''.'')) 2 [Some (CHR ''x'')]"
  by code_simp

lemma blockingReadLine_small_example:
  "blockingReadLine 1 [CHR ''.'', CHR ''.''] [Some CR, Some LF, Some (CHR ''x''), Some CR, Some LF]
   = Polling [LF, CHR ''.''] 1 LF"
  by code_simp

theorem blockingReadLine_bare_pair_witness:
  "length (replicate 33 (CHR ''.'')) = 32 + 1 \<and> (2::nat) \<le> 32
   \<and> blockingReadLine 32 (replicate 33 (CHR ''.'')) [None, Some CR, None, None, Some LF, Some (CHR ''x'')]
      = Returned (CR # LF # NUL # replicate 30 (CHR ''.'')) 2 [Some (CHR ''x'')]
   \<and> length [CHR ''.'', CHR ''.''] = 1 + 1 \<and> (1::nat) \<le> 1
   \<and> blockingReadLine 1 [CHR ''.'', CHR ''.''] [Some CR, Some LF, Some (CHR ''x''), Some CR, Some LF]
      = Polling [LF, CHR ''.''] 1 LF"
  using blockingReadLine_bare_pair [of "replicate 33 (CHR ''.'')" 32 1 2 "[Some (CHR ''x'')]"]
    blockingReadLine_bare_pair [of "[CHR ''.'', CHR ''.'']" 1 0 0 "[]"]
    blockingReadLine_pair_example blockingReadLine_small_example
  by simp

text \<open>
  C1 as stated fails on \<open>cTexter<32>\<close>: fed carriage-return, line-feed and nothing else,
  the read has returned, with stored length 2.
\<close>

theorem blockingReadLine_pair_counterexample:
  "blockingReadLine 32 (replicate 33 (CHR ''.'')) [Some CR, Some LF]
   = Returned (CR # LF # NUL # replicate 30 (CHR ''.'')) 2 []"
  by code_simp

text \<open>The specification's example line, and a line that wraps (\<open>N = 4\<close>).\<close>

lemma blockingReadLine_hello:
  "blockingReadLine 32 (replicate 33 (CHR ''.'')) (map Some (''HELLO'' @ [CR, LF]))
   = Returned (''HELLO'' @ [CR, LF, NUL] @ replicate 25 (CHR ''.'')) 7 []"
  by code_simp

lemma blockingReadLine_wrapped_pair:
  "blockingReadLine 4 (replicate 5 (CHR ''.'')) (map Some (''ABC'' @ [CR, LF]))
   = Polling [LF, CHR ''B'', CHR ''C'', CR, CHR ''.''] 1 LF"
  by code_simp

lemma char_ge_N_step:
  assumes "k < N" and "N \<le> counter_limit t"
  shows "char_ge_N t (char_inc t (int k)) N \<longleftrightarrow> N \<le> Suc k"
proof (cases t)
  case AVR8
  then have k: "k \<le> 127" using assms by (simp add: counter_limit_def)
  show ?thesis
  proof (cases "k = 127")
    case True
    then show ?thesis using AVR8 assms by (simp add: char_ge_N_def char_inc_def counter_limit_def)
  next
    case False
    then have "(int k + 1) mod 65536 = int k + 1" using k by simp
    moreover have "int N \<le> int k + 1 \<longleftrightarrow> N \<le> Suc k" by linarith
    ultimately show ?thesis using AVR8 False by (simp add: char_ge_N_def char_inc_def)
  qed
next
  case ARM32
  then have "k \<noteq> 255" using assms by (simp add: counter_limit_def)
  moreover have "int N \<le> int k + 1 \<longleftrightarrow> N \<le> Suc k" by linarith
  ultimately show ?thesis using ARM32 by (simp add: char_ge_N_def char_inc_def)
qed

lemma char_inc_step:
  assumes "Suc k < N" and "N \<le> counter_limit t"
  shows "char_inc t (int k) = int (Suc k)"
  using assms by (cases t) (auto simp: char_inc_def counter_limit_def)

lemma blockingWriteLine_loop_bounded:
  assumes bound: "N \<le> counter_limit t"
  shows "k < N \<Longrightarrow> NUL \<in> set (drop k pscData) \<or> N \<le> length pscData \<Longrightarrow>
         blockingWriteLine_loop t N pscData (int k) written
         = Some (Inr (written @ takeWhile (\<lambda>c. c \<noteq> NUL) (take (N - k) (drop k pscData))))"
proof (induction d \<equiv> "N - k" arbitrary: k written)
  case 0
  then show ?case by simp
next
  case (Suc d)
  have kN: "k < N" by (rule Suc.prems(1))
  have klen: "k < length pscData"
  proof (rule ccontr)
    assume "\<not> k < length pscData"
    then have "drop k pscData = []" and "\<not> N \<le> length pscData" using kN by simp_all
    then show False using Suc.prems(2) by simp
  qed
  have rd: "src_read pscData (int k) = Inr (pscData ! k)"
    using klen by (simp add: src_read_def)
  have dr: "drop k pscData = pscData ! k # drop (Suc k) pscData"
    using klen by (simp add: Cons_nth_drop_Suc)
  have tk: "take (N - k) (drop k pscData) = pscData ! k # take (N - Suc k) (drop (Suc k) pscData)"
  proof -
    have "N - k = Suc (N - Suc k)" using kN by simp
    then show ?thesis unfolding dr by simp
  qed
  show ?case
  proof (cases "pscData ! k = NUL")
    case True
    then show ?thesis
      by (subst blockingWriteLine_loop.simps) (simp add: rd tk)
  next
    case False
    note nonnul = this
    show ?thesis
    proof (cases "N \<le> Suc k")
      case True
      then have "N - Suc k = 0" by simp
      then show ?thesis using nonnul True char_ge_N_step [OF kN bound]
        by (subst blockingWriteLine_loop.simps) (simp add: rd tk)
    next
      case False
      then have sk: "Suc k < N" by simp
      have d: "d = N - Suc k" using Suc.hyps(2) by simp
      have src: "NUL \<in> set (drop (Suc k) pscData) \<or> N \<le> length pscData"
        using Suc.prems(2) nonnul unfolding dr by auto
      have ih: "blockingWriteLine_loop t N pscData (int (Suc k)) (written @ [pscData ! k])
          = Some (Inr ((written @ [pscData ! k])
                         @ takeWhile (\<lambda>c. c \<noteq> NUL) (take (N - Suc k) (drop (Suc k) pscData))))"
        by (rule Suc.hyps(1) [OF d sk src])
      show ?thesis
        using nonnul False char_ge_N_step [OF kN bound] ih
        by (subst blockingWriteLine_loop.simps) (simp add: rd tk char_inc_step [OF sk bound])
    qed
  qed
qed

text \<open>
  C4, amended. For \<open>1 \<le> N\<close>, \<open>N\<close> at most 128 on AVR and at most 255 on ARM, and a
  source that holds a terminator, \<open>blockingWriteLine\<close> returns, and the characters it
  wrote are the source characters before the first terminator, in order and one write
  each, cut after \<open>N\<close>; so never more than \<open>N\<close>.
\<close>

theorem blockingWriteLine_writes_prefix:
  assumes "1 \<le> N" and "N \<le> counter_limit t" and "NUL \<in> set pscData"
  shows "blockingWriteLine t N pscData = Some (Inr (takeWhile (\<lambda>c. c \<noteq> NUL) (take N pscData)))
       \<and> length (takeWhile (\<lambda>c. c \<noteq> NUL) (take N pscData)) \<le> N"
proof -
  have "blockingWriteLine_loop t N pscData (int 0) []
        = Some (Inr ([] @ takeWhile (\<lambda>c. c \<noteq> NUL) (take (N - 0) (drop 0 pscData))))"
    using assms by (intro blockingWriteLine_loop_bounded) simp_all
  then have "blockingWriteLine t N pscData = Some (Inr (takeWhile (\<lambda>c. c \<noteq> NUL) (take N pscData)))"
    by (simp add: blockingWriteLine_def)
  moreover have "length (takeWhile (\<lambda>c. c \<noteq> NUL) (take N pscData)) \<le> length (take N pscData)"
    by (rule length_takeWhile_le)
  ultimately show ?thesis by simp
qed

lemma blockingWriteLine_loop_wraps:
  assumes run: "blockingWriteLine_loop t N pscData ucLen written = Some y"
  shows "\<not> (t = ARM32 \<and> 256 \<le> N \<and> 0 \<le> ucLen \<and> ucLen < 256
            \<and> (\<forall>i < 256. i < length pscData \<and> pscData ! i \<noteq> NUL))"
proof (rule blockingWriteLine_loop.raw_induct
    [where P = "\<lambda>t N pscData ucLen written y.
       \<not> (t = ARM32 \<and> 256 \<le> N \<and> 0 \<le> ucLen \<and> ucLen < 256
            \<and> (\<forall>i < 256. i < length pscData \<and> pscData ! i \<noteq> NUL))", OF _ run])
  fix loop :: "target \<Rightarrow> nat \<Rightarrow> char list \<Rightarrow> int \<Rightarrow> char list \<Rightarrow> (error + char list) option"
  fix t N pscData ucLen written y
  assume IH: "\<And>t N pscData ucLen written y. loop t N pscData ucLen written = Some y \<Longrightarrow>
       \<not> (t = ARM32 \<and> 256 \<le> N \<and> 0 \<le> ucLen \<and> ucLen < 256
            \<and> (\<forall>i < 256. i < length pscData \<and> pscData ! i \<noteq> NUL))"
    and step: "(case src_read pscData ucLen of
        Inl e \<Rightarrow> Some (Inl e)
      | Inr scCurrent \<Rightarrow>
          if scCurrent = NUL then Some (Inr written)
          else if char_ge_N t (char_inc t ucLen) N then Some (Inr (written @ [scCurrent]))
          else loop t N pscData (char_inc t ucLen) (written @ [scCurrent])) = Some y"
  show "\<not> (t = ARM32 \<and> 256 \<le> N \<and> 0 \<le> ucLen \<and> ucLen < 256
            \<and> (\<forall>i < 256. i < length pscData \<and> pscData ! i \<noteq> NUL))"
  proof
    assume inv: "t = ARM32 \<and> 256 \<le> N \<and> 0 \<le> ucLen \<and> ucLen < 256
            \<and> (\<forall>i < 256. i < length pscData \<and> pscData ! i \<noteq> NUL)"
    then have idx: "nat ucLen < 256" by linarith
    with inv have len: "nat ucLen < length pscData" and nonnul: "pscData ! nat ucLen \<noteq> NUL" by blast+
    have rd: "src_read pscData ucLen = Inr (pscData ! nat ucLen)"
      using inv len by (simp add: src_read_def)
    have next_range: "0 \<le> char_inc t ucLen \<and> char_inc t ucLen < 256"
      using inv by (simp add: char_inc_def)
    then have noge: "\<not> char_ge_N t (char_inc t ucLen) N"
      using inv by (simp add: char_ge_N_def)
    have "loop t N pscData (char_inc t ucLen) (written @ [pscData ! nat ucLen]) = Some y"
      using step rd nonnul noge by simp
    from IH [OF this] show False using inv next_range by simp
  qed
qed

lemma blockingWriteLine_limit_examples:
  "blockingWriteLine ARM32 256 (replicate 256 (CHR ''A'') @ [NUL]) = None"
proof (cases "blockingWriteLine ARM32 256 (replicate 256 (CHR ''A'') @ [NUL])")
  case None
  then show ?thesis .
next
  case (Some y)
  then have "blockingWriteLine_loop ARM32 256 (replicate 256 (CHR ''A'') @ [NUL]) 0 [] = Some y"
    by (simp add: blockingWriteLine_def)
  from blockingWriteLine_loop_wraps [OF this] show ?thesis
    by (simp add: nth_append)
qed

lemma blockingWriteLine_zero:
  "blockingWriteLine t 0 (''A'' @ [NUL]) = Some (Inr ''A'')"
  unfolding blockingWriteLine_def
  by (subst blockingWriteLine_loop.simps) (cases t; simp add: src_read_def char_ge_N_def char_inc_def)

lemma blockingWriteLine_avr_129:
  "blockingWriteLine AVR8 129 (replicate 129 (CHR ''A'') @ [NUL]) = Some (Inr (replicate 128 (CHR ''A'')))"
  by code_simp

lemma blockingWriteLine_example:
  "blockingWriteLine AVR8 4 (''HELLO'' @ [NUL]) = Some (Inr ''HELL'')
   \<and> blockingWriteLine ARM32 32 (''HELLO'' @ [NUL]) = Some (Inr ''HELLO'')"
  by code_simp

theorem blockingWriteLine_writes_prefix_witness:
  "(1::nat) \<le> 4 \<and> 4 \<le> counter_limit AVR8 \<and> NUL \<in> set (''HELLO'' @ [NUL])
   \<and> blockingWriteLine AVR8 4 (''HELLO'' @ [NUL]) = Some (Inr ''HELL'')
   \<and> (1::nat) \<le> 32 \<and> 32 \<le> counter_limit ARM32
   \<and> blockingWriteLine ARM32 32 (''HELLO'' @ [NUL]) = Some (Inr ''HELLO'')"
  using blockingWriteLine_writes_prefix [of 4 AVR8 "''HELLO'' @ [NUL]"]
    blockingWriteLine_writes_prefix [of 32 ARM32 "''HELLO'' @ [NUL]"]
    blockingWriteLine_example
  by (simp add: counter_limit_def)

text \<open>
  C4 as stated fails outside that range. With \<open>N = 0\<close> one character is written, more
  than \<open>N\<close>. On AVR with \<open>N = 129\<close> and 129 characters before the terminator the
  writer stops after 128. On ARM with \<open>N = 256\<close> and 256 characters before the
  terminator the counter wraps to 0 before it reaches \<open>N\<close> and the writer never returns.
\<close>

theorem blockingWriteLine_counterexample:
  "blockingWriteLine AVR8 0 (''A'' @ [NUL]) = Some (Inr ''A'')
   \<and> blockingWriteLine ARM32 0 (''A'' @ [NUL]) = Some (Inr ''A'')
   \<and> blockingWriteLine AVR8 129 (replicate 129 (CHR ''A'') @ [NUL]) = Some (Inr (replicate 128 (CHR ''A'')))
   \<and> blockingWriteLine ARM32 256 (replicate 256 (CHR ''A'') @ [NUL]) = None"
  using blockingWriteLine_zero [of AVR8] blockingWriteLine_zero [of ARM32]
    blockingWriteLine_avr_129 blockingWriteLine_limit_examples
  by simp

subsection \<open>Queue wrapper: \<open>nFRTOS::cQueue\<close>\<close>

lemma peek_nonempty:
  assumes "items m = x # xs"
  shows "peek m xData =
    (if memory m xData = xData then x else memory m xData, True,
     m\<lparr>memory := (memory m)(memory m xData := x)\<rparr>)"
  using assms by (simp add: peek_def xQueuePeek_def)

lemma receive_nonempty:
  assumes "items m = x # xs"
  shows "receive m xData = (True, m\<lparr>items := xs, memory := (memory m)(xData := x)\<rparr>)"
  using assms by (simp add: receive_def xQueueReceive_def)

text \<open>
  C2. A queue holding the one pointer 42; the local \<open>xData\<close> of \<open>peek\<close> is the cell
  at 100 and holds 7. \<open>peek\<close> reports \<open>bReceived = true\<close> and leaves the queue as it
  was, but returns 7, the uninitialised local, and has written the head element to the
  memory at address 7; the \<open>receive\<close> that follows delivers 42.
\<close>

theorem peek_returns_uninitialised_local:
  "fst (peek \<lparr>items = [42], memory = (\<lambda>a. 0)(100 := 7)\<rparr> 100) = 7
   \<and> fst (snd (peek \<lparr>items = [42], memory = (\<lambda>a. 0)(100 := 7)\<rparr> 100)) = True
   \<and> items (snd (snd (peek \<lparr>items = [42], memory = (\<lambda>a. 0)(100 := 7)\<rparr> 100))) = [42]
   \<and> memory (snd (snd (peek \<lparr>items = [42], memory = (\<lambda>a. 0)(100 := 7)\<rparr> 100))) 7 = 42
   \<and> fst (receive (snd (snd (peek \<lparr>items = [42], memory = (\<lambda>a. 0)(100 := 7)\<rparr> 100))) 200) = True
   \<and> memory (snd (receive (snd (snd (peek \<lparr>items = [42], memory = (\<lambda>a. 0)(100 := 7)\<rparr> 100))) 200)) 200 = 42"
  by (simp add: peek_def xQueuePeek_def receive_def xQueueReceive_def)

end
